theory Spec2Isabelle
  imports Main "HOL-Library.Word"
begin

unbundle bit_operations_syntax

section \<open>The staging command \<^verbatim>\<open>go-app-stager\<close>: data model\<close>

text \<open>
  The command (source file \<^verbatim>\<open>src/unnamed/part_001\<close>, package \<^verbatim>\<open>main\<close>) reads an
  application manifest, computes the packages the application imports, copies them into
  a staging directory and finally copies the application root there.

  Go errors are values.  Every \<^verbatim>\<open>fmt.Errorf\<close> of the source is a constructor that
  carries the arguments of the format string; an error produced by the operating system or
  by a library (\<^verbatim>\<open>go/build\<close>, \<^verbatim>\<open>yaml\<close>) is an \<open>ExternalError\<close>.
\<close>

datatype error =
    ExternalError string
  | CouldNotGetAbsolutePath string error
      \<comment> \<open>\<^verbatim>\<open>could not get absolute path for dir %q: %v\<close>\<close>
  | CouldNotGetPackage string error
      \<comment> \<open>\<^verbatim>\<open>could not get package for dir %q: %v\<close>\<close>
  | RootNotMain string
      \<comment> \<open>\<^verbatim>\<open>the root of your app needs to be package "main" (currently %q)\<close>\<close>
  | UnableToCopyDirectory string string error
      \<comment> \<open>\<^verbatim>\<open>unable to copy directory %v to %v: %v\<close> (bundle)\<close>
  | UnableToCreateDirectory string error
      \<comment> \<open>\<^verbatim>\<open>unable to create directory %q: %v\<close>\<close>
  | UnableToReadDir string error
      \<comment> \<open>\<^verbatim>\<open>unable to read dir %q: %v\<close>\<close>
  | UnableToStat string error
      \<comment> \<open>\<^verbatim>\<open>unable to stat %v: %v\<close>\<close>
  | UnableToCopyDir string string error
      \<comment> \<open>\<^verbatim>\<open>unable to copy dir %q to %q: %v\<close> (copyTree, both for directories and files)\<close>
  | UnableToOpen string error
      \<comment> \<open>\<^verbatim>\<open>unable to open %q: %v\<close>\<close>
  | UnableToCreate string error
      \<comment> \<open>\<^verbatim>\<open>unable to create %q: %v\<close>\<close>
  | UnableToCopy string string error
      \<comment> \<open>\<^verbatim>\<open>unable to copy %q to %q: %v\<close>\<close>
  | UnableToClose string error
      \<comment> \<open>\<^verbatim>\<open>unable to close %q: %v\<close>\<close>

text \<open>The fields of \<^verbatim>\<open>build.Package\<close> that the command reads.\<close>

record Package =
  Dir :: string
  Name :: string
  ImportPath :: string
  SrcRoot :: string
  Imports :: "string list"

text \<open>\<^verbatim>\<open>func (p *Package) IsCommand() bool { return p.Name == "main" }\<close>\<close>

definition IsCommand :: "Package \<Rightarrow> bool" where
  "IsCommand p = (Name p = ''main'')"

text \<open>The fields of \<^verbatim>\<open>build.Context\<close> that \<^verbatim>\<open>buildContext\<close> sets.\<close>

record Context =
  GOARCH :: string
  GOOS :: string
  GOROOT :: string
  GOPATH :: string
  Compiler :: string
  BuildTags :: "string list"
  ReleaseTags :: "string list"

text \<open>\<^verbatim>\<open>type config struct { VM bool; Env string }\<close>, the subset of the manifest.\<close>

record config =
  VM :: bool
  Env :: string

definition isFlex :: "config \<Rightarrow> bool" where
  "isFlex conf = (VM conf \<or> Env conf = ''flex'' \<or> Env conf = ''flexible'' \<or> Env conf = ''2'')"

text \<open>\<^verbatim>\<open>type importFrom struct { path string; fromDir string }\<close>: one import edge.\<close>

record importFrom =
  path :: string
  fromDir :: string

text \<open>
  \<^verbatim>\<open>os.FileInfo\<close>: the name of a directory entry and its mode bits.  \<^verbatim>\<open>os.ModeDir\<close> is
  bit 31 and \<^verbatim>\<open>os.ModeSymlink\<close> is bit 27 of the 32-bit \<^verbatim>\<open>os.FileMode\<close>.
\<close>

record FileInfo =
  fi_Name :: string
  fi_Mode :: "32 word"

definition ModeDir :: "32 word" where
  "ModeDir = push_bit 31 1"

definition ModeSymlink :: "32 word" where
  "ModeSymlink = push_bit 27 1"

definition IsDir :: "FileInfo \<Rightarrow> bool" where
  "IsDir entry = (fi_Mode entry AND ModeDir \<noteq> 0)"

subsection \<open>The world outside the program\<close>

text \<open>
  The program observes and changes a file system.  Its state is a value of an arbitrary
  type \<open>'fs\<close>; the library and system calls of the source are the fields of the record
  \<open>os\<close>, functions of that state.  Calls that only read return a result; calls that write
  return the new state as well.  Open files are identified with their path.

  The trace of a run (\<open>events\<close>) records the calls and outputs that the properties below
  speak about: package resolutions, directories and files created, bytes copied, and the
  lines written to the two standard streams.
\<close>

datatype diagnostic =
    Usage
  | FailedToRead string error
      \<comment> \<open>\<^verbatim>\<open>failed to read %s: %v\<close>\<close>
  | FailedToUnmarshal error
      \<comment> \<open>\<^verbatim>\<open>failed to unmarshal YAML config: %v\<close>\<close>
  | FailedAnalyzing string error string
      \<comment> \<open>\<^verbatim>\<open>failed analyzing %s: %v\nGOPATH: %s\n\<close>\<close>
  | FailedToBundle string string error
      \<comment> \<open>\<^verbatim>\<open>failed to bundle to %s from %s: %v\<close>\<close>
  | UnableToCopyRoot error
      \<comment> \<open>\<^verbatim>\<open>unable to copy root directory to /app: %v\<close>\<close>
  | Skipping string
      \<comment> \<open>\<^verbatim>\<open>skipping %s\n\<close>\<close>
  | Copied string string
      \<comment> \<open>\<^verbatim>\<open>copied %s to %s\n\<close>\<close>

datatype event =
    EvImportDir string
  | EvImport string string
  | EvMkdirAll string
  | EvCreate string
  | EvCopy string string
  | EvStderr diagnostic
  | EvStdout string

record 'fs os =
  filepath_Abs :: "'fs \<Rightarrow> string \<Rightarrow> error + string"
  filepath_Join :: "string \<Rightarrow> string \<Rightarrow> string"
  filepath_Dir :: "string \<Rightarrow> string"
  build_Default_GOPATH :: string
  build_Default_Compiler :: string
  build_ImportDir :: "'fs \<Rightarrow> Context \<Rightarrow> string \<Rightarrow> error + Package"
  build_Import :: "'fs \<Rightarrow> Context \<Rightarrow> string \<Rightarrow> string \<Rightarrow> error + Package"
  ioutil_ReadFile :: "'fs \<Rightarrow> string \<Rightarrow> error + string"
  yaml_Unmarshal :: "string \<Rightarrow> error + config"
  os_MkdirAll :: "'fs \<Rightarrow> string \<Rightarrow> error option \<times> 'fs"
  ioutil_ReadDir :: "'fs \<Rightarrow> string \<Rightarrow> error + FileInfo list"
  os_Stat :: "'fs \<Rightarrow> string \<Rightarrow> error + FileInfo"
  os_Open :: "'fs \<Rightarrow> string \<Rightarrow> error option \<times> 'fs"
  os_Create :: "'fs \<Rightarrow> string \<Rightarrow> error option \<times> 'fs"
  io_Copy :: "'fs \<Rightarrow> string \<Rightarrow> string \<Rightarrow> error option \<times> 'fs"
  file_Close :: "'fs \<Rightarrow> string \<Rightarrow> error option \<times> 'fs"

text \<open>
  The state of a run: the file system, the trace, and the two package-level maps of the
  source, \<^verbatim>\<open>skippedPackages\<close> and \<^verbatim>\<open>skipFiles\<close>, which are variables in Go.
\<close>

record 'fs world =
  fs :: 'fs
  events :: "event list"
  skippedPackages :: "string \<rightharpoonup> bool"
  skipFiles :: "string \<rightharpoonup> bool"

definition emit :: "event \<Rightarrow> 'fs world \<Rightarrow> 'fs world" where
  "emit e w = w\<lparr>events := events w @ [e]\<rparr>"

text \<open>The initial value of \<^verbatim>\<open>skippedPackages\<close>, in the order of the source.\<close>

definition skippedPackages_init :: "string \<rightharpoonup> bool" where
  "skippedPackages_init = map_of
    [(''appengine'', True), (''appengine_internal'', True), (''C'', True), (''unsafe'', True),
     (''archive'', True), (''bufio'', True), (''builtin'', True), (''bytes'', True),
     (''compress'', True), (''container'', True), (''context'', True), (''crypto'', True),
     (''database'', True), (''debug'', True), (''encoding'', True), (''errors'', True),
     (''expvar'', True), (''flag'', True), (''fmt'', True), (''go'', True), (''hash'', True),
     (''html'', True), (''image'', True), (''index'', True), (''io'', True), (''log'', True),
     (''math'', True), (''mime'', True), (''net'', True), (''os'', True), (''path'', True),
     (''reflect'', True), (''regexp'', True), (''runtime'', True), (''sort'', True),
     (''strconv'', True), (''strings'', True), (''sync'', True), (''syscall'', True),
     (''testing'', True), (''text'', True), (''time'', True), (''unicode'', True)]"

definition skipFiles_init :: "string \<rightharpoonup> bool" where
  "skipFiles_init = map_of
    [(''.git'', True), (''.gitconfig'', True), (''.hg'', True), (''.travis.yml'', True)]"

definition minorVersions :: "nat list" where
  "minorVersions = [6, 7, 8]"

text \<open>
  Reading a Go \<^verbatim>\<open>map[string]bool\<close> at a key gives the stored value, and \<^verbatim>\<open>false\<close> for
  a key that is absent.  Both \<^verbatim>\<open>ok, _ := skippedPackages[firstPart]\<close> and
  \<^verbatim>\<open>skipFiles[n]\<close> read the value (not the presence of the key).
\<close>

definition lookup_bool :: "('k \<rightharpoonup> bool) \<Rightarrow> 'k \<Rightarrow> bool" where
  "lookup_bool m k = (case m k of None \<Rightarrow> False | Some b \<Rightarrow> b)"

text \<open>
  \<^verbatim>\<open>strings.SplitN(s, "/", 2)\<close>: the text before the first slash and, when there is a
  slash, the text after it.
\<close>

definition strings_SplitN_2 :: "string \<Rightarrow> string list" where
  "strings_SplitN_2 s =
     (let a = takeWhile (\<lambda>c. c \<noteq> CHR ''/'') s; b = dropWhile (\<lambda>c. c \<noteq> CHR ''/'') s
      in if b = [] then [a] else [a, tl b])"

definition firstPart :: "string \<Rightarrow> string" where
  "firstPart p = hd (strings_SplitN_2 p)"

section \<open>The build context\<close>

text \<open>\<^verbatim>\<open>fmt.Sprintf("%d", i)\<close> for a natural number.\<close>

fun digits :: "nat \<Rightarrow> string" where
  "digits n = (if n < 10 then [char_of (48 + n)] else digits (n div 10) @ [char_of (48 + n mod 10)])"

declare digits.simps [simp del]

text \<open>The loop \<^verbatim>\<open>for i := 1; i <= minorVersion; i++\<close> of \<^verbatim>\<open>releaseTags\<close>.\<close>

definition releaseTags :: "nat \<Rightarrow> string list" where
  "releaseTags minorVersion = map (\<lambda>i. ''go1.'' @ digits i) [1 ..< Suc minorVersion]"

definition buildContext :: "'fs os \<Rightarrow> string list \<Rightarrow> nat \<Rightarrow> Context" where
  "buildContext os tags minorVersion =
     \<lparr> GOARCH = ''amd64'', GOOS = ''linux'', GOROOT = '''',
       GOPATH = build_Default_GOPATH os, Compiler = build_Default_Compiler os,
       BuildTags = tags, ReleaseTags = releaseTags minorVersion \<rparr>"

section \<open>The dependency analyzer\<close>

text \<open>
  The \<^verbatim>\<open>for len(imports) != 0\<close> loop of \<^verbatim>\<open>analyze\<close>.  Its variables are the queue
  \<open>imports\<close>, the map \<open>visited\<close>, the map \<open>visitedPackages\<close> and the list \<open>packages\<close>.
  Nothing in the source bounds the number of iterations, so the loop is a partial
  function: \<open>None\<close> is a run that does not end.
\<close>

partial_function (option) analyze_loop ::
  "'fs os \<Rightarrow> Context \<Rightarrow> importFrom list \<Rightarrow> (importFrom \<rightharpoonup> bool) \<Rightarrow> (string \<rightharpoonup> bool) \<Rightarrow>
   Package list \<Rightarrow> 'fs world \<Rightarrow> ((error + Package list) \<times> 'fs world) option"
where
  "analyze_loop os ctx imports visited visitedPackages packages w =
     (case imports of
        [] \<Rightarrow> Some (Inr packages, w)
      | i # rest \<Rightarrow>
          if visited i \<noteq> None then
            analyze_loop os ctx rest visited visitedPackages packages w
          else if lookup_bool (skippedPackages w) (firstPart (path i)) then
            analyze_loop os ctx rest visited visitedPackages packages w
          else
            (case build_Import os (fs w) ctx (path i) (fromDir i) of
               Inl err \<Rightarrow> Some (Inl err, emit (EvImport (path i) (fromDir i)) w)
             | Inr pkg \<Rightarrow>
                 let name = filepath_Join os (SrcRoot pkg) (ImportPath pkg) in
                 analyze_loop os ctx
                   (rest @ map (\<lambda>importPath. \<lparr>path = importPath, fromDir = Dir pkg\<rparr>) (Imports pkg))
                   (visited(i \<mapsto> True))
                   (if visitedPackages name = None then visitedPackages(name \<mapsto> True)
                    else visitedPackages)
                   (if visitedPackages name = None then packages @ [pkg] else packages)
                   (emit (EvImport (path i) (fromDir i)) w)))"

definition analyze ::
  "'fs os \<Rightarrow> string \<Rightarrow> Context \<Rightarrow> bool \<Rightarrow> 'fs world \<Rightarrow>
   ((error + Package list) \<times> 'fs world) option"
where
  "analyze os dir ctx enforceMain w =
     (case filepath_Abs os (fs w) dir of
        Inl err \<Rightarrow> Some (Inl (CouldNotGetAbsolutePath dir err), w)
      | Inr absDir \<Rightarrow>
          (case build_ImportDir os (fs w) ctx absDir of
             Inl err \<Rightarrow> Some (Inl (CouldNotGetPackage dir err), emit (EvImportDir absDir) w)
           | Inr pkg \<Rightarrow>
               if enforceMain \<and> \<not> IsCommand pkg then
                 Some (Inl (RootNotMain (Name pkg)), emit (EvImportDir absDir) w)
               else
                 analyze_loop os ctx
                   (map (\<lambda>importPath. \<lparr>path = importPath, fromDir = absDir\<rparr>) (Imports pkg))
                   Map.empty Map.empty [] (emit (EvImportDir absDir) w)))"

section \<open>The tree copier\<close>

definition set_fs :: "'fs \<Rightarrow> 'fs world \<Rightarrow> 'fs world" where
  "set_fs f w = w\<lparr>fs := f\<rparr>"

text \<open>
  \<^verbatim>\<open>copyFile\<close>.  The deferred \<^verbatim>\<open>s.Close()\<close> runs on every return that follows a
  successful \<^verbatim>\<open>os.Open\<close>; its error is dropped.
\<close>

definition deferred_Close :: "'fs os \<Rightarrow> string \<Rightarrow> 'fs world \<Rightarrow> 'fs world" where
  "deferred_Close os src w = set_fs (snd (file_Close os (fs w) src)) w"

definition copyFile ::
  "'fs os \<Rightarrow> string \<Rightarrow> string \<Rightarrow> string \<Rightarrow> 'fs world \<Rightarrow> error option \<times> 'fs world"
where
  "copyFile os dstRoot dst src w =
     (case os_Open os (fs w) src of
        (Some err, f1) \<Rightarrow> (Some (UnableToOpen src err), set_fs f1 w)
      | (None, f1) \<Rightarrow>
          let dstPath = filepath_Join os dstRoot dst in
          (case os_Create os f1 dstPath of
             (Some err, f2) \<Rightarrow>
               (Some (UnableToCreate dstPath err),
                deferred_Close os src (emit (EvCreate dstPath) (set_fs f2 w)))
           | (None, f2) \<Rightarrow>
               (case io_Copy os f2 dstPath src of
                  (Some err, f3) \<Rightarrow>
                    (Some (UnableToCopy src dstPath err),
                     deferred_Close os src
                       (set_fs (snd (file_Close os f3 dstPath))
                          (emit (EvCopy dstPath src) (emit (EvCreate dstPath) w))))
                | (None, f3) \<Rightarrow>
                    (case file_Close os f3 dstPath of
                       (Some err, f4) \<Rightarrow>
                         (Some (UnableToClose dstPath err),
                          deferred_Close os src
                            (set_fs f4 (emit (EvCopy dstPath src) (emit (EvCreate dstPath) w))))
                     | (None, f4) \<Rightarrow>
                         (None,
                          deferred_Close os src
                            (set_fs f4
                               (emit (EvCopy dstPath src) (emit (EvCreate dstPath) w))))))))"

text \<open>
  A \<^verbatim>\<open>for ... range\<close> loop whose body either fails (the function returns the error) or
  goes on to the next element.  The body may itself not return.
\<close>

fun for_each ::
  "('a \<Rightarrow> 's \<Rightarrow> ('e option \<times> 's) option) \<Rightarrow> 'a list \<Rightarrow> 's \<Rightarrow> ('e option \<times> 's) option"
where
  "for_each body [] w = Some (None, w)"
| "for_each body (x # xs) w =
     Option.bind (body x w)
       (\<lambda>(r, w'). case r of Some err \<Rightarrow> Some (Some err, w') | None \<Rightarrow> for_each body xs w')"

lemma for_each_mono [partial_function_mono]:
  assumes "\<And>x w. mono_option (\<lambda>f. B f x w)"
  shows "mono_option (\<lambda>f. for_each (B f) xs w)"
proof (induction xs arbitrary: w)
  case Nil
  show ?case by (simp add: option.const_mono)
next
  case (Cons x xs)
  have "mono_option (\<lambda>f. case y of (r, w') \<Rightarrow>
          (case r of Some err \<Rightarrow> Some (Some err, w') | None \<Rightarrow> for_each (B f) xs w'))"
    for y
    by (cases y; cases "fst y") (simp_all add: option.const_mono Cons.IH)
  then show ?case
    unfolding for_each.simps
    by (intro bind_mono assms)
qed

text \<open>
  \<^verbatim>\<open>copyTree\<close>.  The recursion follows the directories of the file system, which the
  source does not bound, so \<open>None\<close> is a copy that does not end.
\<close>

partial_function (option) copyTree ::
  "'fs os \<Rightarrow> string \<Rightarrow> string \<Rightarrow> string \<Rightarrow> bool \<Rightarrow> 'fs world \<Rightarrow>
   (error option \<times> 'fs world) option"
where
  "copyTree os dstRoot dstDir srcDir recursive w =
     (let d = filepath_Join os dstRoot dstDir in
      case os_MkdirAll os (fs w) d of
        (Some err, f1) \<Rightarrow>
          Some (Some (UnableToCreateDirectory d err), emit (EvMkdirAll d) (set_fs f1 w))
      | (None, f1) \<Rightarrow>
          (case ioutil_ReadDir os f1 srcDir of
             Inl err \<Rightarrow> Some (Some (UnableToReadDir srcDir err), emit (EvMkdirAll d) (set_fs f1 w))
           | Inr entries \<Rightarrow>
               for_each
                 (\<lambda>entry w.
                    let n = fi_Name entry; s = filepath_Join os srcDir n in
                    if lookup_bool (skipFiles w) n then
                      Some (None, emit (EvStderr (Skipping s)) w)
                    else
                      (case (if fi_Mode entry AND ModeSymlink = ModeSymlink
                             then os_Stat os (fs w) s else Inr entry) of
                         Inl err \<Rightarrow> Some (Some (UnableToStat s err), w)
                       | Inr entry \<Rightarrow>
                           let d = filepath_Join os dstDir n in
                           if IsDir entry then
                             (if \<not> recursive then Some (None, w)
                              else
                                Option.bind (copyTree os dstRoot d s recursive w)
                                  (\<lambda>(r, w'). case r of
                                       Some err \<Rightarrow> Some (Some (UnableToCopyDir s d err), w')
                                     | None \<Rightarrow> Some (None, w')))
                           else
                             (case copyFile os dstRoot d s w of
                                (Some err, w') \<Rightarrow> Some (Some (UnableToCopyDir s d err), w')
                              | (None, w') \<Rightarrow>
                                  Some (None,
                                    emit (EvStderr (Copied s (filepath_Join os dstRoot d))) w'))))
                 entries (emit (EvMkdirAll d) (set_fs f1 w))))"

section \<open>The bundler\<close>

text \<open>\<^verbatim>\<open>bundle\<close> of the source (the name is reserved in Isabelle).\<close>

definition bundle_deps ::
  "'fs os \<Rightarrow> string \<Rightarrow> string \<Rightarrow> string \<Rightarrow> Package list \<Rightarrow> 'fs world \<Rightarrow>
   (error option \<times> 'fs world) option"
where
  "bundle_deps os src dst vendorDir deps w =
     for_each
       (\<lambda>pkg w.
          let dstDir = filepath_Join os vendorDir (ImportPath pkg);
              srcDir = filepath_Join os (SrcRoot pkg) (ImportPath pkg) in
          Option.bind (copyTree os dst dstDir srcDir False w)
            (\<lambda>(r, w'). case r of
                 Some err \<Rightarrow> Some (Some (UnableToCopyDirectory srcDir dstDir err), w')
               | None \<Rightarrow> Some (None, w')))
       deps w"

section \<open>The command\<close>

text \<open>
  The block of \<^verbatim>\<open>main\<close> that derives the settings of a run from the manifest: the build
  tags, \<^verbatim>\<open>enforceMain\<close> and \<^verbatim>\<open>vendorDir\<close>.  For the flexible environment it also
  assigns \<^verbatim>\<open>skippedPackages["appengine"] = false\<close>.
\<close>

definition staging_mode ::
  "'fs os \<Rightarrow> config \<Rightarrow> 'fs world \<Rightarrow> (string list \<times> bool \<times> string) \<times> 'fs world"
where
  "staging_mode os c w =
     (if isFlex c then
        (([''appenginevm''], True, filepath_Join os ''_gopath'' ''src''),
         w\<lparr>skippedPackages := (skippedPackages w)(''appengine'' \<mapsto> False)\<rparr>)
      else (([''appengine''], False, ''''), w))"

text \<open>
  The body of the loop \<^verbatim>\<open>for _, minorVersion := range minorVersions\<close>.  An error value of
  the body is the code given to \<^verbatim>\<open>os.Exit\<close>.
\<close>

definition stage_pass ::
  "'fs os \<Rightarrow> string \<Rightarrow> string \<Rightarrow> string list \<Rightarrow> bool \<Rightarrow> string \<Rightarrow> nat \<Rightarrow> 'fs world \<Rightarrow>
   (nat option \<times> 'fs world) option"
where
  "stage_pass os src dst tags enforceMain vendorDir minorVersion w =
     (let buildCtx = buildContext os tags minorVersion in
      Option.bind (analyze os src buildCtx enforceMain w)
        (\<lambda>(r, w). case r of
             Inl err \<Rightarrow>
               Some (Some 1, emit (EvStderr (FailedAnalyzing src err (GOPATH buildCtx))) w)
           | Inr deps \<Rightarrow>
               Option.bind (bundle_deps os src dst vendorDir deps w)
                 (\<lambda>(r, w). case r of
                      Some err \<Rightarrow> Some (Some 1, emit (EvStderr (FailedToBundle src dst err)) w)
                    | None \<Rightarrow> Some (None, w))))"

text \<open>
  \<^verbatim>\<open>main\<close> returns the exit code of the process and the final state.  The argument
  \<open>args\<close> is \<^verbatim>\<open>flag.Args()\<close>, the positional arguments.
\<close>

definition main :: "'fs os \<Rightarrow> string list \<Rightarrow> 'fs world \<Rightarrow> (nat \<times> 'fs world) option" where
  "main os args w =
     (if length args \<noteq> 2 then Some (1, emit (EvStderr Usage) w)
      else
        let configPath = args ! 0; src = filepath_Dir os configPath; dst = args ! 1 in
        case ioutil_ReadFile os (fs w) configPath of
          Inl err \<Rightarrow> Some (1, emit (EvStderr (FailedToRead configPath err)) w)
        | Inr contents \<Rightarrow>
            (case yaml_Unmarshal os contents of
               Inl err \<Rightarrow> Some (1, emit (EvStderr (FailedToUnmarshal err)) w)
             | Inr c \<Rightarrow>
                 (case staging_mode os c w of
                    ((tags, enforceMain, vendorDir), w) \<Rightarrow>
                      Option.bind
                        (for_each (stage_pass os src dst tags enforceMain vendorDir)
                           minorVersions w)
                        (\<lambda>(exited, w). case exited of
                             Some code \<Rightarrow> Some (code, w)
                           | None \<Rightarrow>
                               Option.bind (copyTree os dst ''.'' src True w)
                                 (\<lambda>(r, w). case r of
                                      Some err \<Rightarrow>
                                        Some (1, emit (EvStderr (UnableToCopyRoot err)) w)
                                    | None \<Rightarrow> Some (0, w))))))"

definition initial_world :: "'fs \<Rightarrow> 'fs world" where
  "initial_world f =
     \<lparr>fs = f, events = [], skippedPackages = skippedPackages_init, skipFiles = skipFiles_init\<rparr>"

section \<open>Notions used to state the properties\<close>

subsection \<open>The import graph seen by one analysis\<close>

text \<open>
  During one call of \<^verbatim>\<open>analyze\<close> the file system, the build context and
  \<^verbatim>\<open>skippedPackages\<close> do not change, so \<^verbatim>\<open>ctx.Import\<close> is a function of the edge.
  An edge is skipped when the first segment of its path is mapped to \<^verbatim>\<open>true\<close>.
\<close>

definition edge_event :: "importFrom \<Rightarrow> event" where
  "edge_event e = EvImport (path e) (fromDir e)"

definition skipped :: "(string \<rightharpoonup> bool) \<Rightarrow> importFrom \<Rightarrow> bool" where
  "skipped sk e = lookup_bool sk (firstPart (path e))"

definition resolve :: "'fs os \<Rightarrow> 'fs \<Rightarrow> Context \<Rightarrow> importFrom \<Rightarrow> error + Package" where
  "resolve os f ctx e = build_Import os f ctx (path e) (fromDir e)"

definition edges_from :: "string \<Rightarrow> string list \<Rightarrow> importFrom list" where
  "edges_from d ps = map (\<lambda>importPath. \<lparr>path = importPath, fromDir = d\<rparr>) ps"

text \<open>The key of \<^verbatim>\<open>visitedPackages\<close>: \<^verbatim>\<open>filepath.Join(pkg.SrcRoot, pkg.ImportPath)\<close>.\<close>

definition pkg_key :: "'fs os \<Rightarrow> Package \<Rightarrow> string" where
  "pkg_key os p = filepath_Join os (SrcRoot p) (ImportPath p)"

text \<open>
  The edges reachable from a list of queued edges: the queued edges themselves, and the
  imports of every package to which a reachable edge that is not skipped resolves.
\<close>

inductive_set reach ::
  "'fs os \<Rightarrow> 'fs \<Rightarrow> Context \<Rightarrow> (string \<rightharpoonup> bool) \<Rightarrow> importFrom list \<Rightarrow> importFrom set"
  for os :: "'fs os" and f :: 'fs and ctx :: Context and sk :: "string \<rightharpoonup> bool"
    and q :: "importFrom list"
where
  queued: "e \<in> set q \<Longrightarrow> e \<in> reach os f ctx sk q"
| imported: "e \<in> reach os f ctx sk q \<Longrightarrow> \<not> skipped sk e \<Longrightarrow> resolve os f ctx e = Inr p \<Longrightarrow>
     e' \<in> set (edges_from (Dir p) (Imports p)) \<Longrightarrow> e' \<in> reach os f ctx sk q"

text \<open>The edges that a successful analysis resolves: reachable and not skipped.\<close>

definition resolved_edges ::
  "'fs os \<Rightarrow> 'fs \<Rightarrow> Context \<Rightarrow> (string \<rightharpoonup> bool) \<Rightarrow> importFrom list \<Rightarrow> importFrom set"
where
  "resolved_edges os f ctx sk q = {e \<in> reach os f ctx sk q. \<not> skipped sk e}"

subsection \<open>Projections of the trace\<close>

text \<open>The events that a run adds to the trace of the state it started from.\<close>

definition new_events :: "'fs world \<Rightarrow> 'fs world \<Rightarrow> event list" where
  "new_events w w' = drop (length (events w)) (events w')"

fun resolutions :: "event list \<Rightarrow> importFrom list" where
  "resolutions [] = []"
| "resolutions (EvImport p d # es) = \<lparr>path = p, fromDir = d\<rparr> # resolutions es"
| "resolutions (_ # es) = resolutions es"

fun is_mkdir :: "event \<Rightarrow> bool" where
  "is_mkdir (EvMkdirAll d) = True"
| "is_mkdir _ = False"

fun is_stdout :: "event \<Rightarrow> bool" where
  "is_stdout (EvStdout s) = True"
| "is_stdout _ = False"

text \<open>
  A step from \<open>w\<close> to \<open>w'\<close> that leaves the two package-level maps as they are and adds
  to the trace only events that satisfy \<open>p\<close>.
\<close>

definition adds :: "(event \<Rightarrow> bool) \<Rightarrow> 'fs world \<Rightarrow> 'fs world \<Rightarrow> bool" where
  "adds p w w' \<longleftrightarrow>
     skippedPackages w' = skippedPackages w \<and> skipFiles w' = skipFiles w \<and>
     (\<exists>es. events w' = events w @ es \<and> list_all p es)"

fun mkdirs :: "event list \<Rightarrow> string list" where
  "mkdirs [] = []"
| "mkdirs (EvMkdirAll d # es) = d # mkdirs es"
| "mkdirs (_ # es) = mkdirs es"

fun created :: "event list \<Rightarrow> string list" where
  "created [] = []"
| "created (EvCreate d # es) = d # created es"
| "created (_ # es) = created es"

fun stdout_lines :: "event list \<Rightarrow> string list" where
  "stdout_lines [] = []"
| "stdout_lines (EvStdout s # es) = s # stdout_lines es"
| "stdout_lines (_ # es) = stdout_lines es"


subsection \<open>What a run of the analysis loop establishes\<close>

text \<open>
  The three parts of the loop invariant, for a run that started with queue \<open>q\<close>, visited
  map \<open>V\<close>, package map \<open>VP\<close> and package list \<open>pk\<close>, and that resolved the edges
  \<open>A\<close> in this order.
\<close>

definition run_trace ::
  "'fs os \<Rightarrow> Context \<Rightarrow> importFrom list \<Rightarrow> (importFrom \<rightharpoonup> bool) \<Rightarrow> 'fs world \<Rightarrow> 'fs world \<Rightarrow>
   importFrom list \<Rightarrow> bool"
where
  "run_trace os ctx q V w w' A \<longleftrightarrow>
     fs w' = fs w \<and> skippedPackages w' = skippedPackages w \<and> skipFiles w' = skipFiles w \<and>
     events w' = events w @ map edge_event A \<and> distinct A \<and>
     (\<forall>e\<in>set A. V e = None \<and> \<not> skipped (skippedPackages w) e) \<and>
     set A \<subseteq> reach os (fs w) ctx (skippedPackages w) q"

definition run_closed ::
  "'fs os \<Rightarrow> Context \<Rightarrow> importFrom list \<Rightarrow> (importFrom \<rightharpoonup> bool) \<Rightarrow> 'fs world \<Rightarrow>
   importFrom list \<Rightarrow> bool"
where
  "run_closed os ctx q V w A \<longleftrightarrow>
     set q \<subseteq> dom V \<union> set A \<union> {e. skipped (skippedPackages w) e} \<and>
     (\<forall>e\<in>set A. \<exists>p. resolve os (fs w) ctx e = Inr p \<and>
        set (edges_from (Dir p) (Imports p)) \<subseteq>
          dom V \<union> set A \<union> {e. skipped (skippedPackages w) e})"

definition run_packages ::
  "'fs os \<Rightarrow> Context \<Rightarrow> (string \<rightharpoonup> bool) \<Rightarrow> Package list \<Rightarrow> 'fs world \<Rightarrow>
   importFrom list \<Rightarrow> Package list \<Rightarrow> bool"
where
  "run_packages os ctx VP pk w A pkgs \<longleftrightarrow>
     (\<exists>new. pkgs = pk @ new \<and> distinct (map (pkg_key os) new) \<and>
        (\<forall>p\<in>set new. VP (pkg_key os p) = None \<and>
           (\<exists>e\<in>set A. resolve os (fs w) ctx e = Inr p)) \<and>
        (\<forall>e\<in>set A. \<forall>p. resolve os (fs w) ctx e = Inr p \<longrightarrow>
           pkg_key os p \<in> dom VP \<union> pkg_key os ` set new))"

text \<open>
  The kinds of events of the three phases: what the analyzer adds to the trace, what the
  tree copier adds, and what the command as a whole adds.
\<close>

fun resolve_event :: "event \<Rightarrow> bool" where
  "resolve_event (EvImportDir d) = True"
| "resolve_event (EvImport p d) = True"
| "resolve_event _ = False"

fun copy_event :: "event \<Rightarrow> bool" where
  "copy_event (EvMkdirAll d) = True"
| "copy_event (EvCreate d) = True"
| "copy_event (EvCopy d s) = True"
| "copy_event (EvStderr d) = True"
| "copy_event _ = False"

fun run_event :: "event \<Rightarrow> bool" where
  "run_event (EvStdout s) = False"
| "run_event _ = True"

subsection \<open>The trace of a non-recursive copy\<close>

text \<open>
  What \<^verbatim>\<open>copyTree\<close> with \<^verbatim>\<open>recursive = false\<close> adds to the trace when it succeeds.  For
  one entry of the listing of the source directory: a skip message when the name is in
  \<^verbatim>\<open>skipFiles\<close>; nothing when the entry (for a symbolic link, what \<^verbatim>\<open>os.Stat\<close> returns
  for it) is a directory; otherwise the creation of the file of the same name in the
  destination directory, the copy of its bytes from the file in the source directory, and
  the message that reports the copy.  For the directory: the creation of the destination
  directory, followed by the events of the entries in the order of the listing.
\<close>

definition is_symlink :: "FileInfo \<Rightarrow> bool" where
  "is_symlink entry \<longleftrightarrow> fi_Mode entry AND ModeSymlink = ModeSymlink"

definition file_copy_events :: "'fs os \<Rightarrow> string \<Rightarrow> string \<Rightarrow> string \<Rightarrow> string \<Rightarrow> event list" where
  "file_copy_events os dstRoot dstDir srcDir n =
     [EvCreate (filepath_Join os dstRoot (filepath_Join os dstDir n)),
      EvCopy (filepath_Join os dstRoot (filepath_Join os dstDir n)) (filepath_Join os srcDir n),
      EvStderr (Copied (filepath_Join os srcDir n)
                  (filepath_Join os dstRoot (filepath_Join os dstDir n)))]"

definition entry_trace ::
  "'fs os \<Rightarrow> (string \<rightharpoonup> bool) \<Rightarrow> string \<Rightarrow> string \<Rightarrow> string \<Rightarrow> FileInfo \<Rightarrow> event list \<Rightarrow> bool"
where
  "entry_trace os skipF dstRoot dstDir srcDir entry es \<longleftrightarrow>
     (if lookup_bool skipF (fi_Name entry) then
        es = [EvStderr (Skipping (filepath_Join os srcDir (fi_Name entry)))]
      else
        (\<exists>e'. (if is_symlink entry
                then (\<exists>f. os_Stat os f (filepath_Join os srcDir (fi_Name entry)) = Inr e')
                else e' = entry) \<and>
              es = (if IsDir e' then []
                    else file_copy_events os dstRoot dstDir srcDir (fi_Name entry))))"

definition flat_copy ::
  "'fs os \<Rightarrow> (string \<rightharpoonup> bool) \<Rightarrow> string \<Rightarrow> string \<Rightarrow> string \<Rightarrow> event list \<Rightarrow> bool"
where
  "flat_copy os skipF dstRoot dstDir srcDir es \<longleftrightarrow>
     (\<exists>f entries ess.
        ioutil_ReadDir os f srcDir = Inr entries \<and>
        list_all2 (entry_trace os skipF dstRoot dstDir srcDir) entries ess \<and>
        es = EvMkdirAll (filepath_Join os dstRoot dstDir) # concat ess)"

section \<open>Concrete environments\<close>

text \<open>
  A small environment on which the definitions can be run: packages are found in a table
  by the path they are imported under, directories are listed from a table, every write
  succeeds and the file system state carries no information.  \<open>fx_Join\<close> and
  \<open>fx_Dir\<close> agree with \<^verbatim>\<open>filepath.Join\<close> and \<^verbatim>\<open>filepath.Dir\<close> on the clean paths
  used below.
\<close>

definition fx_Join :: "string \<Rightarrow> string \<Rightarrow> string" where
  "fx_Join a b =
     (if a = '''' then b else if b = '''' then a
      else if a = ''.'' then b else if b = ''.'' then a else a @ ''/'' @ b)"

definition fx_Dir :: "string \<Rightarrow> string" where
  "fx_Dir p =
     (let r = dropWhile (\<lambda>c. c \<noteq> CHR ''/'') (rev p)
      in if r = [] then ''.'' else if tl r = [] then ''/'' else rev (tl r))"

definition fx_Unmarshal :: "string \<Rightarrow> error + config" where
  "fx_Unmarshal s =
     (if s = '''' then Inr \<lparr>VM = False, Env = ''''\<rparr>
      else if s = ''vm: true'' then Inr \<lparr>VM = True, Env = ''''\<rparr>
      else if s = ''env: flex'' then Inr \<lparr>VM = False, Env = ''flex''\<rparr>
      else Inl (ExternalError ''yaml: unmarshal error''))"

definition fx_find :: "('a \<Rightarrow> bool) \<Rightarrow> 'a list \<Rightarrow> error + 'a" where
  "fx_find P xs = (case find P xs of None \<Rightarrow> Inl (ExternalError ''not found'') | Some x \<Rightarrow> Inr x)"

definition fixture_os ::
  "(string \<times> Package) list \<Rightarrow> (string \<times> FileInfo list) list \<Rightarrow> (string \<times> string) list \<Rightarrow> unit os"
where
  "fixture_os pkgs dirs files =
     \<lparr> filepath_Abs = (\<lambda>_ p. Inr p),
       filepath_Join = fx_Join,
       filepath_Dir = fx_Dir,
       build_Default_GOPATH = ''/gopath'',
       build_Default_Compiler = ''gc'',
       build_ImportDir = (\<lambda>_ _ d. fx_find (\<lambda>p. Dir p = d) (map snd pkgs)),
       build_Import = (\<lambda>_ _ p _. map_sum id snd (fx_find (\<lambda>e. fst e = p) pkgs)),
       ioutil_ReadFile = (\<lambda>_ p. map_sum id snd (fx_find (\<lambda>e. fst e = p) files)),
       yaml_Unmarshal = fx_Unmarshal,
       os_MkdirAll = (\<lambda>f _. (None, f)),
       ioutil_ReadDir = (\<lambda>_ p. map_sum id snd (fx_find (\<lambda>e. fst e = p) dirs)),
       os_Stat = (\<lambda>_ _. Inl (ExternalError ''no such file'')),
       os_Open = (\<lambda>f _. (None, f)),
       os_Create = (\<lambda>f _. (None, f)),
       io_Copy = (\<lambda>f _ _. (None, f)),
       file_Close = (\<lambda>f _. (None, f)) \<rparr>"

text \<open>A package \<open>ip\<close> of the workspace \<^verbatim>\<open>/gopath\<close>.\<close>

definition gopath_pkg :: "string \<Rightarrow> string \<Rightarrow> string list \<Rightarrow> Package" where
  "gopath_pkg nm ip imps =
     \<lparr>Dir = ''/gopath/src/'' @ ip, Name = nm, ImportPath = ip, SrcRoot = ''/gopath/src'',
      Imports = imps\<rparr>"

definition regular_file :: "string \<Rightarrow> FileInfo" where
  "regular_file n = \<lparr>fi_Name = n, fi_Mode = 0\<rparr>"

definition directory :: "string \<Rightarrow> FileInfo" where
  "directory n = \<lparr>fi_Name = n, fi_Mode = ModeDir\<rparr>"

text \<open>The build context of the first pass (Go 1.6) for a list of build tags.\<close>

definition level6 :: "string list \<Rightarrow> Context" where
  "level6 tags = buildContext (fixture_os [] [] []) tags 6"

text \<open>An application whose root package is a library, \<^verbatim>\<open>package www\<close>.\<close>

definition library_app :: "(string \<times> Package) list" where
  "library_app =
     [(''app'', gopath_pkg ''www'' ''app'' [''net/http'', ''a'']),
      (''a'', gopath_pkg ''a'' ''a'' [])]"

text \<open>
  Applications of the workspace.  In \<open>cyclic_app\<close> the root imports \<open>a\<close>, \<open>a\<close> imports
  \<open>b\<close> and \<open>b\<close> imports \<open>a\<close>.  In \<open>diamond_app\<close> the root imports \<open>a\<close> and \<open>b\<close>,
  which both import \<open>c\<close>.  In \<open>selfref_app\<close> the imported package \<open>a\<close> imports the root.
  \<open>hello_app\<close> imports the standard library only.
\<close>

definition cyclic_app :: "(string \<times> Package) list" where
  "cyclic_app =
     [(''app'', gopath_pkg ''main'' ''app'' [''fmt'', ''a'']),
      (''a'', gopath_pkg ''a'' ''a'' [''b'']),
      (''b'', gopath_pkg ''b'' ''b'' [''a'', ''strings''])]"

definition diamond_app :: "(string \<times> Package) list" where
  "diamond_app =
     [(''app'', gopath_pkg ''main'' ''app'' [''a'', ''b'']),
      (''a'', gopath_pkg ''a'' ''a'' [''c'']),
      (''b'', gopath_pkg ''b'' ''b'' [''c'']),
      (''c'', gopath_pkg ''c'' ''c'' [''fmt''])]"

definition selfref_app :: "(string \<times> Package) list" where
  "selfref_app =
     [(''app'', gopath_pkg ''main'' ''app'' [''a'']),
      (''a'', gopath_pkg ''a'' ''a'' [''app''])]"

definition hello_app :: "(string \<times> Package) list" where
  "hello_app = [(''app'', gopath_pkg ''main'' ''app'' [''fmt''])]"



text \<open>
  An application that imports one package of the workspace, \<open>a\<close>, whose directory has a
  file and a subdirectory.  The manifest of \<open>standard_os\<close> is empty (the standard
  environment); the manifest of \<open>flexible_os\<close> sets \<^verbatim>\<open>vm: true\<close>.
\<close>

definition staged_pkgs :: "(string \<times> Package) list" where
  "staged_pkgs =
     [(''app'', gopath_pkg ''main'' ''app'' [''fmt'', ''a'']),
      (''a'', gopath_pkg ''a'' ''a'' [])]"

definition staged_dirs :: "(string \<times> FileInfo list) list" where
  "staged_dirs =
     [(''/gopath/src/app'', [regular_file ''app.yaml'', regular_file ''main.go'']),
      (''/gopath/src/a'', [regular_file ''a.go'', directory ''sub'']),
      (''/gopath/src/a/sub'', [regular_file ''s.go''])]"

definition standard_os :: "unit os" where
  "standard_os = fixture_os staged_pkgs staged_dirs [(''/gopath/src/app/app.yaml'', '''')]"

definition flexible_os :: "unit os" where
  "flexible_os = fixture_os staged_pkgs staged_dirs [(''/gopath/src/app/app.yaml'', ''vm: true'')]"

text \<open>
  The traces of the runs on this application: what the bundler does for the package \<open>a\<close>,
  what a recursive copy adds for its subdirectory, one pass of the command, and the final
  copy of the application root; then the final states of the two runs.
\<close>

definition bundle_trace :: "string \<Rightarrow> event list" where
  "bundle_trace dstDir =
     [EvMkdirAll dstDir, EvCreate (dstDir @ ''/a.go''),
      EvCopy (dstDir @ ''/a.go'') ''/gopath/src/a/a.go'',
      EvStderr (Copied ''/gopath/src/a/a.go'' (dstDir @ ''/a.go''))]"

definition subdir_trace :: "string \<Rightarrow> event list" where
  "subdir_trace dstDir =
     [EvMkdirAll (dstDir @ ''/sub''), EvCreate (dstDir @ ''/sub/s.go''),
      EvCopy (dstDir @ ''/sub/s.go'') ''/gopath/src/a/sub/s.go'',
      EvStderr (Copied ''/gopath/src/a/sub/s.go'' (dstDir @ ''/sub/s.go''))]"

definition pass_trace :: "string \<Rightarrow> event list" where
  "pass_trace dstDir =
     [EvImportDir ''/gopath/src/app'', EvImport ''a'' ''/gopath/src/app''] @ bundle_trace dstDir"

definition root_copy_trace :: "event list" where
  "root_copy_trace =
     [EvMkdirAll ''/out'',
      EvCreate ''/out/app.yaml'', EvCopy ''/out/app.yaml'' ''/gopath/src/app/app.yaml'',
      EvStderr (Copied ''/gopath/src/app/app.yaml'' ''/out/app.yaml''),
      EvCreate ''/out/main.go'', EvCopy ''/out/main.go'' ''/gopath/src/app/main.go'',
      EvStderr (Copied ''/gopath/src/app/main.go'' ''/out/main.go'')]"

definition standard_final :: "unit world" where
  "standard_final =
     \<lparr>fs = (),
      events = pass_trace ''/out/a'' @ pass_trace ''/out/a'' @ pass_trace ''/out/a'' @
               root_copy_trace,
      skippedPackages = skippedPackages_init, skipFiles = skipFiles_init\<rparr>"


section \<open>The analysis loop, step by step\<close>

lemma analyze_loop_Nil:
  "analyze_loop os ctx [] V VP pk w = Some (Inr pk, w)"
  by (subst analyze_loop.simps) simp

lemma analyze_loop_visited:
  "V i \<noteq> None \<Longrightarrow>
   analyze_loop os ctx (i # rest) V VP pk w = analyze_loop os ctx rest V VP pk w"
  by (subst analyze_loop.simps) simp

lemma analyze_loop_skipped:
  "V i = None \<Longrightarrow> skipped (skippedPackages w) i \<Longrightarrow>
   analyze_loop os ctx (i # rest) V VP pk w = analyze_loop os ctx rest V VP pk w"
  by (subst analyze_loop.simps) (simp add: skipped_def)

lemma analyze_loop_fail:
  "V i = None \<Longrightarrow> \<not> skipped (skippedPackages w) i \<Longrightarrow> resolve os (fs w) ctx i = Inl err \<Longrightarrow>
   analyze_loop os ctx (i # rest) V VP pk w = Some (Inl err, emit (edge_event i) w)"
  by (subst analyze_loop.simps) (simp add: skipped_def resolve_def edge_event_def)

lemma analyze_loop_ok:
  "V i = None \<Longrightarrow> \<not> skipped (skippedPackages w) i \<Longrightarrow> resolve os (fs w) ctx i = Inr pkg \<Longrightarrow>
   analyze_loop os ctx (i # rest) V VP pk w =
   analyze_loop os ctx (rest @ edges_from (Dir pkg) (Imports pkg)) (V(i \<mapsto> True))
     (if VP (pkg_key os pkg) = None then VP(pkg_key os pkg \<mapsto> True) else VP)
     (if VP (pkg_key os pkg) = None then pk @ [pkg] else pk)
     (emit (edge_event i) w)"
  by (subst analyze_loop.simps)
     (simp add: skipped_def resolve_def edge_event_def edges_from_def pkg_key_def Let_def)

text \<open>
  Induction over a run of the loop that returns: one case for each way through the body.
\<close>

lemma analyze_loop_cases [consumes 1, case_names Nil Visited Skipped Fail Resolve]:
  assumes run: "analyze_loop os ctx q V VP pk w = Some y"
    and Nil: "\<And>V VP pk w. P [] V VP pk w (Inr pk, w)"
    and Visited: "\<And>i rest V VP pk w y.
        V i \<noteq> None \<Longrightarrow> P rest V VP pk w y \<Longrightarrow> P (i # rest) V VP pk w y"
    and Skipped: "\<And>i rest V VP pk w y.
        V i = None \<Longrightarrow> skipped (skippedPackages w) i \<Longrightarrow> P rest V VP pk w y \<Longrightarrow>
        P (i # rest) V VP pk w y"
    and Fail: "\<And>i rest V VP pk w err.
        V i = None \<Longrightarrow> \<not> skipped (skippedPackages w) i \<Longrightarrow>
        resolve os (fs w) ctx i = Inl err \<Longrightarrow>
        P (i # rest) V VP pk w (Inl err, emit (edge_event i) w)"
    and Resolve: "\<And>i rest V VP pk w pkg y.
        V i = None \<Longrightarrow> \<not> skipped (skippedPackages w) i \<Longrightarrow>
        resolve os (fs w) ctx i = Inr pkg \<Longrightarrow>
        P (rest @ edges_from (Dir pkg) (Imports pkg)) (V(i \<mapsto> True))
          (if VP (pkg_key os pkg) = None then VP(pkg_key os pkg \<mapsto> True) else VP)
          (if VP (pkg_key os pkg) = None then pk @ [pkg] else pk)
          (emit (edge_event i) w) y \<Longrightarrow>
        P (i # rest) V VP pk w y"
  shows "P q V VP pk w y"
proof -
  have "os' = os \<longrightarrow> ctx' = ctx \<longrightarrow> P q V VP pk w y"
    if "analyze_loop os' ctx' q V VP pk w = Some y" for os' ctx'
  proof (rule analyze_loop.raw_induct[where P = "\<lambda>os' ctx' q V VP pk w y.
      os' = os \<longrightarrow> ctx' = ctx \<longrightarrow> P q V VP pk w y", rotated, OF that], goal_cases)
    case (1 f os' ctx' q V VP pk w y)
    show ?case
    proof (intro impI)
      assume eq: "os' = os" "ctx' = ctx"
      show "P q V VP pk w y"
      proof (cases q)
        case Nil
        with 1(2) assms(2)[of V VP pk w] show ?thesis by auto
      next
        case (Cons i rest)
        show ?thesis
        proof (cases "V i \<noteq> None")
          case True
          with 1(2) Cons eq have "f os ctx rest V VP pk w = Some y" by simp
          from 1(1)[OF this] have "P rest V VP pk w y" by simp
          from Visited[OF True this] Cons show ?thesis by simp
        next
          case notV: False
          show ?thesis
          proof (cases "skipped (skippedPackages w) i")
            case True
            with 1(2) Cons eq notV have "f os ctx rest V VP pk w = Some y"
              by (simp add: skipped_def)
            from 1(1)[OF this] have "P rest V VP pk w y" by simp
            from Skipped[OF _ True this] notV Cons show ?thesis by simp
          next
            case notS: False
            show ?thesis
            proof (cases "resolve os (fs w) ctx i")
              case (Inl err)
              with 1(2) Cons eq notV notS have "y = (Inl err, emit (edge_event i) w)"
                by (auto simp: skipped_def resolve_def edge_event_def)
              with Fail[of V i w err rest VP pk] notV notS Inl Cons show ?thesis by simp
            next
              case (Inr pkg)
              with 1(2) Cons eq notV notS
              have "f os ctx (rest @ edges_from (Dir pkg) (Imports pkg)) (V(i \<mapsto> True))
                 (if VP (pkg_key os pkg) = None then VP(pkg_key os pkg \<mapsto> True) else VP)
                 (if VP (pkg_key os pkg) = None then pk @ [pkg] else pk)
                 (emit (edge_event i) w) = Some y"
                by (cases "VP (pkg_key os pkg) = None")
                   (auto simp: skipped_def resolve_def edge_event_def edges_from_def
                      pkg_key_def Let_def)
              from 1(1)[OF this]
              have "P (rest @ edges_from (Dir pkg) (Imports pkg)) (V(i \<mapsto> True))
                 (if VP (pkg_key os pkg) = None then VP(pkg_key os pkg \<mapsto> True) else VP)
                 (if VP (pkg_key os pkg) = None then pk @ [pkg] else pk)
                 (emit (edge_event i) w) y" by simp
              from Resolve[OF _ notS Inr this] notV Cons show ?thesis by simp
            qed
          qed
        qed
      qed
    qed
  qed
  with run show ?thesis by simp
qed

section \<open>The invariant of the analysis loop\<close>

lemma emit_simps [simp]:
  "fs (emit e w) = fs w"
  "skippedPackages (emit e w) = skippedPackages w"
  "skipFiles (emit e w) = skipFiles w"
  "events (emit e w) = events w @ [e]"
  by (simp_all add: emit_def)

lemma reach_mono:
  assumes "set q' \<subseteq> reach os f ctx sk q"
  shows "reach os f ctx sk q' \<subseteq> reach os f ctx sk q"
proof
  fix e assume "e \<in> reach os f ctx sk q'"
  then show "e \<in> reach os f ctx sk q"
  proof (induction rule: reach.induct)
    case (queued e)
    with assms show ?case by auto
  next
    case (imported e p e')
    then show ?case by (auto intro: reach.imported)
  qed
qed

lemma reach_tail: "reach os f ctx sk rest \<subseteq> reach os f ctx sk (i # rest)"
  by (rule reach_mono) (auto intro: reach.queued)

lemma reach_step:
  assumes "\<not> skipped sk i" and "resolve os f ctx i = Inr p"
  shows "reach os f ctx sk (rest @ edges_from (Dir p) (Imports p)) \<subseteq> reach os f ctx sk (i # rest)"
proof (rule reach_mono, rule subsetI)
  fix e assume "e \<in> set (rest @ edges_from (Dir p) (Imports p))"
  then consider "e \<in> set rest" | "e \<in> set (edges_from (Dir p) (Imports p))" by auto
  then show "e \<in> reach os f ctx sk (i # rest)"
  proof cases
    case 1 then show ?thesis by (auto intro: reach.queued)
  next
    case 2
    have "i \<in> reach os f ctx sk (i # rest)" by (auto intro: reach.queued)
    from reach.imported[OF this assms 2] show ?thesis .
  qed
qed

lemma run_trace_Nil: "run_trace os ctx [] V w w []"
  by (simp add: run_trace_def)

lemma run_trace_tail:
  "run_trace os ctx rest V w w' A \<Longrightarrow> run_trace os ctx (i # rest) V w w' A"
  using reach_tail[of os "fs w" ctx "skippedPackages w" rest i]
  by (auto simp: run_trace_def)

lemma run_trace_Fail:
  "V i = None \<Longrightarrow> \<not> skipped (skippedPackages w) i \<Longrightarrow>
   run_trace os ctx (i # rest) V w (emit (edge_event i) w) [i]"
  by (auto simp: run_trace_def intro: reach.queued)

lemma run_trace_Resolve:
  assumes "run_trace os ctx (rest @ edges_from (Dir p) (Imports p)) (V(i \<mapsto> True))
             (emit (edge_event i) w) w' A"
    and "V i = None" and "\<not> skipped (skippedPackages w) i"
    and "resolve os (fs w) ctx i = Inr p"
  shows "run_trace os ctx (i # rest) V w w' (i # A)"
proof -
  have i: "i \<in> reach os (fs w) ctx (skippedPackages w) (i # rest)"
    by (auto intro: reach.queued)
  have notin: "i \<notin> set A" using assms(1) by (auto simp: run_trace_def)
  have sub: "set A \<subseteq> reach os (fs w) ctx (skippedPackages w) (i # rest)"
    using assms(1) reach_step[OF assms(3,4), of rest] by (auto simp: run_trace_def)
  have none: "\<forall>e\<in>set A. V e = None"
    using assms(1) by (auto simp: run_trace_def split: if_splits)
  show ?thesis
    using assms i notin sub none by (simp add: run_trace_def)
qed

lemma run_closed_Nil: "run_closed os ctx [] V w []"
  by (simp add: run_closed_def)

lemma run_closed_tail:
  "run_closed os ctx rest V w A \<Longrightarrow> V i \<noteq> None \<or> skipped (skippedPackages w) i \<Longrightarrow>
   run_closed os ctx (i # rest) V w A"
  by (auto simp: run_closed_def)

lemma run_closed_Resolve:
  assumes "run_closed os ctx (rest @ edges_from (Dir p) (Imports p)) (V(i \<mapsto> True))
             (emit (edge_event i) w) A"
    and "resolve os (fs w) ctx i = Inr p"
  shows "run_closed os ctx (i # rest) V w (i # A)"
proof -
  let ?D' = "dom (V(i \<mapsto> True)) \<union> set A \<union> {e. skipped (skippedPackages w) e}"
  let ?D = "dom V \<union> set (i # A) \<union> {e. skipped (skippedPackages w) e}"
  have D: "?D' = ?D" by auto
  from assms(1) have q: "set (rest @ edges_from (Dir p) (Imports p)) \<subseteq> ?D'"
    and A: "\<forall>e\<in>set A. \<exists>p. resolve os (fs w) ctx e = Inr p \<and>
        set (edges_from (Dir p) (Imports p)) \<subseteq> ?D'"
    by (simp_all add: run_closed_def)
  from q have "set (i # rest) \<subseteq> ?D" unfolding D by auto
  moreover from q assms(2) have "\<exists>p. resolve os (fs w) ctx i = Inr p \<and>
        set (edges_from (Dir p) (Imports p)) \<subseteq> ?D" unfolding D by auto
  moreover from A have "\<forall>e\<in>set A. \<exists>p. resolve os (fs w) ctx e = Inr p \<and>
        set (edges_from (Dir p) (Imports p)) \<subseteq> ?D" unfolding D .
  ultimately show ?thesis unfolding run_closed_def by simp
qed

lemma run_packages_Nil: "run_packages os ctx VP pk w [] pk"
  by (simp add: run_packages_def)

lemma run_packages_Resolve:
  assumes "run_packages os ctx
             (if VP (pkg_key os p) = None then VP(pkg_key os p \<mapsto> True) else VP)
             (if VP (pkg_key os p) = None then pk @ [p] else pk)
             (emit (edge_event i) w) A pkgs"
    and "resolve os (fs w) ctx i = Inr p"
  shows "run_packages os ctx VP pk w (i # A) pkgs"
proof (cases "VP (pkg_key os p) = None")
  case True
  with assms(1) obtain new where new: "pkgs = (pk @ [p]) @ new"
    "distinct (map (pkg_key os) new)"
    "\<forall>q\<in>set new. (VP(pkg_key os p \<mapsto> True)) (pkg_key os q) = None \<and>
           (\<exists>e\<in>set A. resolve os (fs w) ctx e = Inr q)"
    "\<forall>e\<in>set A. \<forall>q. resolve os (fs w) ctx e = Inr q \<longrightarrow>
           pkg_key os q \<in> dom (VP(pkg_key os p \<mapsto> True)) \<union> pkg_key os ` set new"
    by (auto simp: run_packages_def)
  from new(3) have fresh: "pkg_key os p \<notin> pkg_key os ` set new"
    by (auto split: if_splits)
  have 1: "pkgs = pk @ (p # new)" using new(1) by simp
  have 2: "distinct (map (pkg_key os) (p # new))" using new(2) fresh by simp
  have 3: "\<forall>q\<in>set (p # new). VP (pkg_key os q) = None \<and>
           (\<exists>e\<in>set (i # A). resolve os (fs w) ctx e = Inr q)"
    using new(3) True assms(2) by (auto split: if_splits)
  have 4: "\<forall>e\<in>set (i # A). \<forall>q. resolve os (fs w) ctx e = Inr q \<longrightarrow>
           pkg_key os q \<in> dom VP \<union> pkg_key os ` set (p # new)"
    using new(4) assms(2) by auto
  show ?thesis unfolding run_packages_def using 1 2 3 4 by blast
next
  case False
  with assms(1) obtain new where new: "pkgs = pk @ new"
    "distinct (map (pkg_key os) new)"
    "\<forall>q\<in>set new. VP (pkg_key os q) = None \<and>
           (\<exists>e\<in>set A. resolve os (fs w) ctx e = Inr q)"
    "\<forall>e\<in>set A. \<forall>q. resolve os (fs w) ctx e = Inr q \<longrightarrow>
           pkg_key os q \<in> dom VP \<union> pkg_key os ` set new"
    by (auto simp: run_packages_def)
  have 3: "\<forall>q\<in>set new. VP (pkg_key os q) = None \<and>
           (\<exists>e\<in>set (i # A). resolve os (fs w) ctx e = Inr q)"
    using new(3) by auto
  have 4: "\<forall>e\<in>set (i # A). \<forall>q. resolve os (fs w) ctx e = Inr q \<longrightarrow>
           pkg_key os q \<in> dom VP \<union> pkg_key os ` set new"
    using new(4) assms(2) False by auto
  show ?thesis unfolding run_packages_def using new(1,2) 3 4 by blast
qed

lemma analyze_loop_post:
  assumes "analyze_loop os ctx q V VP pk w = Some y"
  shows "\<exists>A. run_trace os ctx q V w (snd y) A \<and>
           (case fst y of
              Inl err \<Rightarrow> \<exists>e\<in>set A. resolve os (fs w) ctx e = Inl err
            | Inr pkgs \<Rightarrow> run_closed os ctx q V w A \<and> run_packages os ctx VP pk w A pkgs)"
  using assms
proof (induction q V VP pk w y rule: analyze_loop_cases)
  case (Nil V VP pk w)
  show ?case
    by (rule exI[of _ "[]"]) (simp add: run_trace_Nil run_closed_Nil run_packages_Nil)
next
  case (Visited i rest V VP pk w y)
  then obtain A where A: "run_trace os ctx rest V w (snd y) A"
    "case fst y of
              Inl err \<Rightarrow> \<exists>e\<in>set A. resolve os (fs w) ctx e = Inl err
            | Inr pkgs \<Rightarrow> run_closed os ctx rest V w A \<and> run_packages os ctx VP pk w A pkgs"
    by blast
  show ?case
    using A(2) Visited(1)
    by (intro exI[of _ A] conjI run_trace_tail[OF A(1)])
       (auto split: sum.splits intro: run_closed_tail)
next
  case (Skipped i rest V VP pk w y)
  then obtain A where A: "run_trace os ctx rest V w (snd y) A"
    "case fst y of
              Inl err \<Rightarrow> \<exists>e\<in>set A. resolve os (fs w) ctx e = Inl err
            | Inr pkgs \<Rightarrow> run_closed os ctx rest V w A \<and> run_packages os ctx VP pk w A pkgs"
    by blast
  show ?case
    using A(2) Skipped(2)
    by (intro exI[of _ A] conjI run_trace_tail[OF A(1)])
       (auto split: sum.splits intro: run_closed_tail)
next
  case (Fail i rest V VP pk w err)
  show ?case
    using Fail by (intro exI[of _ "[i]"]) (simp add: run_trace_Fail)
next
  case (Resolve i rest V VP pk w p y)
  let ?VP = "if VP (pkg_key os p) = None then VP(pkg_key os p \<mapsto> True) else VP"
  let ?pk = "if VP (pkg_key os p) = None then pk @ [p] else pk"
  let ?w = "emit (edge_event i) w"
  let ?q = "rest @ edges_from (Dir p) (Imports p)"
  from Resolve(4) obtain A where A: "run_trace os ctx ?q (V(i \<mapsto> True)) ?w (snd y) A"
    "case fst y of
              Inl err \<Rightarrow> \<exists>e\<in>set A. resolve os (fs ?w) ctx e = Inl err
            | Inr pkgs \<Rightarrow> run_closed os ctx ?q (V(i \<mapsto> True)) ?w A \<and>
                run_packages os ctx ?VP ?pk ?w A pkgs"
    by blast
  have t: "run_trace os ctx (i # rest) V w (snd y) (i # A)"
    by (rule run_trace_Resolve[OF A(1) Resolve(1,2,3)])
  show ?case
  proof (intro exI[of _ "i # A"] conjI t)
    show "case fst y of
              Inl err \<Rightarrow> \<exists>e\<in>set (i # A). resolve os (fs w) ctx e = Inl err
            | Inr pkgs \<Rightarrow> run_closed os ctx (i # rest) V w (i # A) \<and>
                run_packages os ctx VP pk w (i # A) pkgs"
    proof (cases "fst y")
      case (Inl err)
      with A(2) show ?thesis by auto
    next
      case (Inr pkgs)
      with A(2) have c: "run_closed os ctx ?q (V(i \<mapsto> True)) ?w A"
        and p: "run_packages os ctx ?VP ?pk ?w A pkgs" by simp_all
      from run_closed_Resolve[OF c Resolve(3)] run_packages_Resolve[OF p Resolve(3)] Inr
      show ?thesis by simp
    qed
  qed
qed

section \<open>Termination and the result of an analysis\<close>

lemma analyze_loop_terminates_aux:
  "finite (reach os (fs w) ctx (skippedPackages w) q) \<Longrightarrow>
   card (reach os (fs w) ctx (skippedPackages w) q - dom V) \<le> n \<Longrightarrow>
   \<exists>y. analyze_loop os ctx q V VP pk w = Some y"
proof (induction n arbitrary: q V VP pk w rule: less_induct)
  case (less n)
  from less.prems show ?case
  proof (induction q)
    case Nil
    show ?case by (simp add: analyze_loop_Nil)
  next
    case (Cons i rest)
    let ?R = "\<lambda>q. reach os (fs w) ctx (skippedPackages w) q"
    have sub: "?R rest \<subseteq> ?R (i # rest)" by (rule reach_tail)
    have fin: "finite (?R rest)" using sub Cons.prems(1) by (rule finite_subset)
    have "card (?R rest - dom V) \<le> card (?R (i # rest) - dom V)"
      using sub Cons.prems(1) by (intro card_mono) auto
    with Cons.prems(2) have le: "card (?R rest - dom V) \<le> n" by simp
    from Cons.IH[OF fin le] obtain y where y: "analyze_loop os ctx rest V VP pk w = Some y" ..
    show ?case
    proof (cases "V i \<noteq> None")
      case True
      with y show ?thesis by (simp add: analyze_loop_visited)
    next
      case notV: False
      then have V: "V i = None" by simp
      show ?thesis
      proof (cases "skipped (skippedPackages w) i")
        case True
        with y V show ?thesis by (simp add: analyze_loop_skipped)
      next
        case notS: False
        show ?thesis
        proof (cases "resolve os (fs w) ctx i")
          case (Inl err)
          from V notS Inl show ?thesis by (simp add: analyze_loop_fail)
        next
          case (Inr p)
          let ?q = "rest @ edges_from (Dir p) (Imports p)"
          let ?w = "emit (edge_event i) w"
          have sub': "?R ?q \<subseteq> ?R (i # rest)" by (rule reach_step[OF notS Inr])
          have i: "i \<in> ?R (i # rest) - dom V" using V by (auto intro: reach.queued)
          have "?R ?q - dom (V(i \<mapsto> True)) \<subset> ?R (i # rest) - dom V"
            using sub' i by auto
          then have "card (?R ?q - dom (V(i \<mapsto> True))) < card (?R (i # rest) - dom V)"
            using Cons.prems(1) by (intro psubset_card_mono) auto
          with Cons.prems(2) have lt: "card (?R ?q - dom (V(i \<mapsto> True))) < n" by simp
          have fin': "finite (reach os (fs ?w) ctx (skippedPackages ?w) ?q)"
            using sub' Cons.prems(1) by (simp add: finite_subset)
          have "\<exists>y. analyze_loop os ctx ?q (V(i \<mapsto> True))
                 (if VP (pkg_key os p) = None then VP(pkg_key os p \<mapsto> True) else VP)
                 (if VP (pkg_key os p) = None then pk @ [p] else pk) ?w = Some y"
            by (rule less.IH[OF lt fin']) (simp only: emit_simps order_refl)
          with V notS Inr show ?thesis by (simp add: analyze_loop_ok)
        qed
      qed
    qed
  qed
qed

lemma analyze_loop_terminates:
  "finite (reach os (fs w) ctx (skippedPackages w) q) \<Longrightarrow>
   \<exists>y. analyze_loop os ctx q V VP pk w = Some y"
  by (rule analyze_loop_terminates_aux[OF _ order_refl])

lemma closed_reach:
  assumes "run_closed os ctx q Map.empty w A"
  shows "reach os (fs w) ctx (skippedPackages w) q \<subseteq> set A \<union> {e. skipped (skippedPackages w) e}"
proof
  fix e assume "e \<in> reach os (fs w) ctx (skippedPackages w) q"
  then show "e \<in> set A \<union> {e. skipped (skippedPackages w) e}"
  proof (induction rule: reach.induct)
    case (queued e)
    with assms show ?case by (auto simp: run_closed_def)
  next
    case (imported e p e')
    then have "e \<in> set A" by simp
    with assms obtain p' where "resolve os (fs w) ctx e = Inr p'"
      "set (edges_from (Dir p') (Imports p')) \<subseteq> set A \<union> {e. skipped (skippedPackages w) e}"
      by (auto simp: run_closed_def)
    with imported show ?case by auto
  qed
qed

lemma resolutions_edge_events [simp]: "resolutions (map edge_event A) = A"
  by (induction A) (simp_all add: edge_event_def)

lemma new_events_append [simp]: "events w' = events w @ es \<Longrightarrow> new_events w w' = es"
  by (simp add: new_events_def)

text \<open>What a call of analyze that returns a package list has done.\<close>

lemma analyze_success:
  assumes absDir: "filepath_Abs os (fs w) dir = Inr absDir"
    and root: "build_ImportDir os (fs w) ctx absDir = Inr root"
    and run: "analyze os dir ctx enforceMain w = Some (Inr pkgs, w')"
  defines "E \<equiv> resolved_edges os (fs w) ctx (skippedPackages w) (edges_from absDir (Imports root))"
  shows "\<exists>A. events w' = events w @ EvImportDir absDir # map edge_event A \<and>
           distinct A \<and> set A = E \<and>
           (\<forall>e\<in>E. \<exists>p. resolve os (fs w) ctx e = Inr p \<and> pkg_key os p \<in> pkg_key os ` set pkgs) \<and>
           (\<forall>p\<in>set pkgs. \<exists>e\<in>E. resolve os (fs w) ctx e = Inr p) \<and>
           distinct (map (pkg_key os) pkgs)"
proof -
  let ?w = "emit (EvImportDir absDir) w"
  let ?q = "edges_from absDir (Imports root)"
  from run absDir root
  have loop: "analyze_loop os ctx ?q Map.empty Map.empty [] ?w = Some (Inr pkgs, w')"
    by (simp add: analyze_def edges_from_def split: if_splits)
  from analyze_loop_post[OF loop] obtain A where
    t: "run_trace os ctx ?q Map.empty ?w w' A" and
    c: "run_closed os ctx ?q Map.empty ?w A" and
    p: "run_packages os ctx Map.empty [] ?w A pkgs"
    by auto
  from t have ev: "events w' = events w @ EvImportDir absDir # map edge_event A"
    and d: "distinct A" and sub: "set A \<subseteq> E"
    by (auto simp: run_trace_def E_def resolved_edges_def)
  from closed_reach[OF c] have "E \<subseteq> set A" by (auto simp: E_def resolved_edges_def)
  with sub have eq: "set A = E" by auto
  from p have dk: "distinct (map (pkg_key os) pkgs)"
    and from_edge: "\<forall>p\<in>set pkgs. \<exists>e\<in>set A. resolve os (fs w) ctx e = Inr p"
    and key: "\<forall>e\<in>set A. \<forall>p. resolve os (fs w) ctx e = Inr p \<longrightarrow>
           pkg_key os p \<in> pkg_key os ` set pkgs"
    by (auto simp: run_packages_def)
  from c have res: "\<forall>e\<in>set A. \<exists>p. resolve os (fs w) ctx e = Inr p"
    by (auto simp: run_closed_def)
  show ?thesis
    using ev d eq dk from_edge key res by (intro exI[of _ A]) (auto simp: eq[symmetric])
qed

lemma exactly_one:
  "distinct (map f xs) \<Longrightarrow> k \<in> f ` set xs \<Longrightarrow> length (filter (\<lambda>x. f x = k) xs) = 1"
proof (induction xs)
  case Nil
  then show ?case by simp
next
  case (Cons x xs)
  show ?case
  proof (cases "f x = k")
    case True
    from Cons.prems(1) have "f x \<notin> f ` set xs" by simp
    then have "\<forall>y\<in>set xs. f y \<noteq> f x" by (metis image_eqI)
    with True have "filter (\<lambda>x. f x = k) xs = []"
      by (simp add: filter_empty_conv)
    with True show ?thesis by simp
  next
    case False
    with Cons show ?thesis by auto
  qed
qed


lemma analyze_trace:
  assumes absDir: "filepath_Abs os (fs w) dir = Inr absDir"
    and root: "build_ImportDir os (fs w) ctx absDir = Inr root"
    and run: "analyze os dir ctx enforceMain w = Some (r, w')"
  shows "\<exists>A. events w' = events w @ EvImportDir absDir # map edge_event A \<and> distinct A \<and>
           set A \<subseteq> resolved_edges os (fs w) ctx (skippedPackages w)
                      (edges_from absDir (Imports root))"
proof (cases "enforceMain \<and> \<not> IsCommand root")
  case True
  with run absDir root have "w' = emit (EvImportDir absDir) w"
    by (auto simp: analyze_def)
  then show ?thesis by (intro exI[of _ "[]"]) simp
next
  case False
  let ?w = "emit (EvImportDir absDir) w"
  let ?q = "edges_from absDir (Imports root)"
  from False run absDir root
  have "analyze_loop os ctx ?q Map.empty Map.empty [] ?w = Some (r, w')"
    by (auto simp: analyze_def edges_from_def)
  from analyze_loop_post[OF this] obtain A where "run_trace os ctx ?q Map.empty ?w w' A"
    by auto
  then show ?thesis
    by (intro exI[of _ A]) (auto simp: run_trace_def resolved_edges_def)
qed

section \<open>Running the analyzer on the concrete applications\<close>

lemma skippedPackages_init_apply:
  "skippedPackages_init k = map_of
    [(''appengine'', True), (''appengine_internal'', True), (''C'', True), (''unsafe'', True),
     (''archive'', True), (''bufio'', True), (''builtin'', True), (''bytes'', True),
     (''compress'', True), (''container'', True), (''context'', True), (''crypto'', True),
     (''database'', True), (''debug'', True), (''encoding'', True), (''errors'', True),
     (''expvar'', True), (''flag'', True), (''fmt'', True), (''go'', True), (''hash'', True),
     (''html'', True), (''image'', True), (''index'', True), (''io'', True), (''log'', True),
     (''math'', True), (''mime'', True), (''net'', True), (''os'', True), (''path'', True),
     (''reflect'', True), (''regexp'', True), (''runtime'', True), (''sort'', True),
     (''strconv'', True), (''strings'', True), (''sync'', True), (''syscall'', True),
     (''testing'', True), (''text'', True), (''time'', True), (''unicode'', True)] k"
  by (simp add: skippedPackages_init_def)

lemma firstPart_eq: "firstPart p = takeWhile (\<lambda>c. c \<noteq> CHR ''/'') p"
  by (simp add: firstPart_def strings_SplitN_2_def Let_def)

lemma initial_world_simps [simp]:
  "fs (initial_world f) = f"
  "events (initial_world f) = []"
  "skippedPackages (initial_world f) = skippedPackages_init"
  "skipFiles (initial_world f) = skipFiles_init"
  by (simp_all add: initial_world_def)

lemma fixture_os_simps [simp]:
  "filepath_Abs (fixture_os pkgs dirs files) f p = Inr p"
  "filepath_Join (fixture_os pkgs dirs files) = fx_Join"
  "filepath_Dir (fixture_os pkgs dirs files) = fx_Dir"
  "build_ImportDir (fixture_os pkgs dirs files) f c d = fx_find (\<lambda>p. Dir p = d) (map snd pkgs)"
  "build_Import (fixture_os pkgs dirs files) f c p d = map_sum id snd (fx_find (\<lambda>e. fst e = p) pkgs)"
  "build_Default_GOPATH (fixture_os pkgs dirs files) = ''/gopath''"
  by (simp_all add: fixture_os_def)

lemmas analyze_eval =
  analyze_def analyze_loop.simps fx_find_def gopath_pkg_def IsCommand_def
  lookup_bool_def firstPart_eq skippedPackages_init_apply fx_Join_def Let_def

lemma cyclic_run:
  "analyze (fixture_os cyclic_app [] []) ''/gopath/src/app'' (level6 [''appengine'']) False
     (initial_world ()) =
   Some (Inr [gopath_pkg ''a'' ''a'' [''b''], gopath_pkg ''b'' ''b'' [''a'', ''strings'']],
     emit (EvImport ''a'' ''/gopath/src/b'')
       (emit (EvImport ''b'' ''/gopath/src/a'')
          (emit (EvImport ''a'' ''/gopath/src/app'')
             (emit (EvImportDir ''/gopath/src/app'') (initial_world ())))))"
  by (simp add: analyze_eval cyclic_app_def)

lemma diamond_run:
  "analyze (fixture_os diamond_app [] []) ''/gopath/src/app'' (level6 [''appengine'']) False
     (initial_world ()) =
   Some (Inr [gopath_pkg ''a'' ''a'' [''c''], gopath_pkg ''b'' ''b'' [''c''],
              gopath_pkg ''c'' ''c'' [''fmt'']],
     emit (EvImport ''c'' ''/gopath/src/b'')
       (emit (EvImport ''c'' ''/gopath/src/a'')
          (emit (EvImport ''b'' ''/gopath/src/app'')
             (emit (EvImport ''a'' ''/gopath/src/app'')
                (emit (EvImportDir ''/gopath/src/app'') (initial_world ()))))))"
  by (simp add: analyze_eval diamond_app_def)

lemma hello_run:
  "analyze (fixture_os hello_app [] []) ''/gopath/src/app'' (level6 [''appengine'']) False
     (initial_world ()) =
   Some (Inr [], emit (EvImportDir ''/gopath/src/app'') (initial_world ()))"
  by (simp add: analyze_eval hello_app_def)


lemma selfref_run:
  "analyze (fixture_os selfref_app [] []) ''/gopath/src/app'' (level6 [''appengine'']) False
     (initial_world ()) =
   Some (Inr [gopath_pkg ''a'' ''a'' [''app''], gopath_pkg ''main'' ''app'' [''a'']],
     emit (EvImport ''app'' ''/gopath/src/a'')
       (emit (EvImport ''a'' ''/gopath/src/app'')
          (emit (EvImportDir ''/gopath/src/app'') (initial_world ()))))"
  by (simp add: analyze_eval selfref_app_def)


lemma hello_reach:
  "reach (fixture_os hello_app [] []) () (level6 [''appengine'']) skippedPackages_init
     (edges_from ''/gopath/src/app'' [''fmt'']) = {\<lparr>path = ''fmt'', fromDir = ''/gopath/src/app''\<rparr>}"
  (is "?R = {?e}")
proof
  show "?R \<subseteq> {?e}"
  proof
    fix e assume "e \<in> ?R"
    then show "e \<in> {?e}"
    proof (induction rule: reach.induct)
      case (queued e)
      then show ?case by (simp add: edges_from_def)
    next
      case (imported e p e')
      then show ?case
        by (simp add: skipped_def lookup_bool_def firstPart_eq skippedPackages_init_apply)
    qed
  qed
  show "{?e} \<subseteq> ?R" by (auto intro!: reach.queued simp: edges_from_def)
qed

lemma cyclic_reach:
  "reach (fixture_os cyclic_app [] []) () (level6 [''appengine'']) skippedPackages_init
     (edges_from ''/gopath/src/app'' [''fmt'', ''a'']) \<subseteq>
   {\<lparr>path = ''fmt'', fromDir = ''/gopath/src/app''\<rparr>,
    \<lparr>path = ''a'', fromDir = ''/gopath/src/app''\<rparr>,
    \<lparr>path = ''b'', fromDir = ''/gopath/src/a''\<rparr>,
    \<lparr>path = ''a'', fromDir = ''/gopath/src/b''\<rparr>,
    \<lparr>path = ''strings'', fromDir = ''/gopath/src/b''\<rparr>}"
  (is "?R \<subseteq> ?S")
proof
  fix e assume "e \<in> ?R"
  then show "e \<in> ?S"
  proof (induction rule: reach.induct)
    case (queued e)
    then show ?case by (auto simp: edges_from_def)
  next
    case (imported e p e')
    have sk: "skipped skippedPackages_init \<lparr>path = ''fmt'', fromDir = d\<rparr>"
      "skipped skippedPackages_init \<lparr>path = ''strings'', fromDir = d\<rparr>" for d
      by (simp_all add: skipped_def lookup_bool_def firstPart_eq skippedPackages_init_apply)
    have ra: "resolve (fixture_os cyclic_app [] []) () c \<lparr>path = ''a'', fromDir = d\<rparr> =
        Inr (gopath_pkg ''a'' ''a'' [''b''])"
      and rb: "resolve (fixture_os cyclic_app [] []) () c \<lparr>path = ''b'', fromDir = d\<rparr> =
        Inr (gopath_pkg ''b'' ''b'' [''a'', ''strings''])" for c d
      by (simp_all add: resolve_def cyclic_app_def fx_find_def)
    from imported.IH imported.hyps(2) sk
    consider "path e = ''a''" | "path e = ''b''" by auto
    then show ?case
    proof cases
      case 1
      then have "e = \<lparr>path = ''a'', fromDir = fromDir e\<rparr>" by simp
      with imported.hyps(3) ra[of "level6 [''appengine'']" "fromDir e"]
      have "p = gopath_pkg ''a'' ''a'' [''b'']" by simp
      with imported.hyps(4) show ?thesis by (simp add: edges_from_def gopath_pkg_def)
    next
      case 2
      then have "e = \<lparr>path = ''b'', fromDir = fromDir e\<rparr>" by simp
      with imported.hyps(3) rb[of "level6 [''appengine'']" "fromDir e"]
      have "p = gopath_pkg ''b'' ''b'' [''a'', ''strings'']" by simp
      with imported.hyps(4) show ?thesis by (simp add: edges_from_def gopath_pkg_def)
    qed
  qed
qed
section \<open>The tree copier and the bundler\<close>

lemma set_fs_simps [simp]:
  "fs (set_fs f w) = f"
  "events (set_fs f w) = events w"
  "skippedPackages (set_fs f w) = skippedPackages w"
  "skipFiles (set_fs f w) = skipFiles w"
  by (simp_all add: set_fs_def)

lemma deferred_Close_simps [simp]:
  "events (deferred_Close os src w) = events w"
  "skippedPackages (deferred_Close os src w) = skippedPackages w"
  "skipFiles (deferred_Close os src w) = skipFiles w"
  by (simp_all add: deferred_Close_def)

lemma adds_refl [simp]: "adds p w w"
  by (simp add: adds_def)

lemma adds_trans: "adds p w w1 \<Longrightarrow> adds p w1 w2 \<Longrightarrow> adds p w w2"
  by (auto simp: adds_def)

lemma adds_emit: "p e \<Longrightarrow> adds p w (emit e w)"
  by (simp add: adds_def)

lemma adds_emit_after: "adds p w w' \<Longrightarrow> p e \<Longrightarrow> adds p w (emit e w')"
  by (auto simp: adds_def)

lemma adds_set_fs [simp]: "adds p w (set_fs f w') = adds p w w'"
  by (simp add: adds_def)

lemma adds_deferred_Close [simp]: "adds p w (deferred_Close os src w') = adds p w w'"
  by (simp add: adds_def)

lemma adds_mono: "adds p w w' \<Longrightarrow> (\<And>e. p e \<Longrightarrow> q e) \<Longrightarrow> adds q w w'"
  by (auto simp: adds_def list_all_iff)

lemma copyFile_adds:
  assumes "\<And>d. p (EvCreate d)" and "\<And>d s. p (EvCopy d s)"
  shows "adds p w (snd (copyFile os dstRoot dst src w))"
  by (auto simp: copyFile_def Let_def assms intro!: adds_emit_after adds_emit
        split: prod.splits option.splits)

lemma for_each_adds:
  assumes body: "\<And>x w y. x \<in> set xs \<Longrightarrow> body x w = Some y \<Longrightarrow> adds p w (snd y)"
    and run: "for_each body xs w = Some y"
  shows "adds p w (snd y)"
  using assms
proof (induction xs arbitrary: w)
  case Nil
  then show ?case by auto
next
  case (Cons x xs)
  from Cons.prems(2) obtain r w1 where b: "body x w = Some (r, w1)"
    by (auto simp: bind_eq_Some_conv)
  from Cons.prems(1)[OF _ b] have a1: "adds p w w1" by simp
  show ?case
  proof (cases r)
    case None
    with Cons.prems(2) b have "for_each body xs w1 = Some y" by simp
    have "adds p w1 (snd y)"
    proof (rule Cons.IH)
      show "for_each body xs w1 = Some y" by fact
      show "adds p w (snd y)" if "x \<in> set xs" "body x w = Some y" for x w y
        using Cons.prems(1)[of x w y] that by simp
    qed
    with a1 show ?thesis by (rule adds_trans)
  next
    case (Some err)
    with Cons.prems(2) b a1 show ?thesis by auto
  qed
qed

lemma copyTree_adds:
  assumes "copyTree os dstRoot dstDir srcDir recursive w = Some y"
  shows "adds copy_event w (snd y)"
proof (rule copyTree.raw_induct[where P = "\<lambda>os dstRoot dstDir srcDir recursive w y.
      adds copy_event w (snd y)", rotated, OF assms], goal_cases)
  case (1 f os dstRoot dstDir srcDir recursive w y)
  let ?d = "filepath_Join os dstRoot dstDir"
  obtain r f1 where mk: "os_MkdirAll os (fs w) ?d = (r, f1)" by (cases "os_MkdirAll os (fs w) ?d")
  let ?w1 = "emit (EvMkdirAll ?d) (set_fs f1 w)"
  have w1: "adds copy_event w ?w1" by (auto intro!: adds_emit_after)
  show ?case
  proof (cases r)
    case (Some err)
    with 1(2) mk w1 show ?thesis by (auto simp: Let_def)
  next
    case None
    show ?thesis
    proof (cases "ioutil_ReadDir os f1 srcDir")
      case (Inl err)
      with 1(2) mk None w1 show ?thesis by (auto simp: Let_def)
    next
      case (Inr entries)
      with 1(2) mk None obtain body where
        fe: "for_each body entries ?w1 = Some y" and
        body: "body = (\<lambda>entry w.
                    let n = fi_Name entry; s = filepath_Join os srcDir n in
                    if lookup_bool (skipFiles w) n then
                      Some (None, emit (EvStderr (Skipping s)) w)
                    else
                      (case (if fi_Mode entry AND ModeSymlink = ModeSymlink
                             then os_Stat os (fs w) s else Inr entry) of
                         Inl err \<Rightarrow> Some (Some (UnableToStat s err), w)
                       | Inr entry \<Rightarrow>
                           let d = filepath_Join os dstDir n in
                           if IsDir entry then
                             (if \<not> recursive then Some (None, w)
                              else
                                Option.bind (f os dstRoot d s recursive w)
                                  (\<lambda>(r, w'). case r of
                                       Some err \<Rightarrow> Some (Some (UnableToCopyDir s d err), w')
                                     | None \<Rightarrow> Some (None, w')))
                           else
                             (case copyFile os dstRoot d s w of
                                (Some err, w') \<Rightarrow> Some (Some (UnableToCopyDir s d err), w')
                              | (None, w') \<Rightarrow>
                                  Some (None,
                                    emit (EvStderr (Copied s (filepath_Join os dstRoot d))) w'))))"
        by (simp add: Let_def)
      have "adds copy_event w0 (snd y0)" if "body x w0 = Some y0" for x w0 y0
      proof -
        have cf: "adds copy_event w0 w'" if "copyFile os dstRoot d s w0 = (r, w')" for d s r w'
          using copyFile_adds[of copy_event w0 os dstRoot d s] that by simp
        from that show ?thesis
          unfolding body
          by (auto simp: Let_def bind_eq_Some_conv
                split: if_splits sum.splits prod.splits option.splits
                intro!: adds_emit adds_emit_after dest!: 1(1) intro: cf)
      qed
      from for_each_adds[OF this fe] have "adds copy_event ?w1 (snd y)" by simp
      with w1 show ?thesis by (rule adds_trans)
    qed
  qed
qed

lemma for_each_total:
  assumes "\<And>x w. x \<in> set xs \<Longrightarrow> \<exists>y. body x w = Some y \<and> adds p w (snd y)"
  shows "\<exists>y. for_each body xs w = Some y \<and> adds p w (snd y)"
  using assms
proof (induction xs arbitrary: w)
  case Nil
  show ?case by simp
next
  case (Cons x xs)
  from Cons.prems[of x w] obtain r w1 where b: "body x w = Some (r, w1)" and a: "adds p w w1"
    by auto
  show ?case
  proof (cases r)
    case (Some err)
    with b a show ?thesis by simp
  next
    case None
    have "\<exists>y. for_each body xs w1 = Some y \<and> adds p w1 (snd y)"
      by (rule Cons.IH) (use Cons.prems in auto)
    then obtain y where "for_each body xs w1 = Some y" "adds p w1 (snd y)" by blast
    with b a None show ?thesis by (auto intro: adds_trans)
  qed
qed

text \<open>A non-recursive copy returns, and creates the destination directory and no other.\<close>

lemma copyTree_flat:
  "\<exists>r w'. copyTree os dstRoot dstDir srcDir False w = Some (r, w') \<and>
     (\<exists>es. events w' = events w @ EvMkdirAll (filepath_Join os dstRoot dstDir) # es \<and>
        list_all (\<lambda>e. \<not> is_mkdir e) es)"
proof -
  let ?d = "filepath_Join os dstRoot dstDir"
  let ?p = "\<lambda>e. \<not> is_mkdir e"
  obtain r f1 where mk: "os_MkdirAll os (fs w) ?d = (r, f1)" by (cases "os_MkdirAll os (fs w) ?d")
  let ?w1 = "emit (EvMkdirAll ?d) (set_fs f1 w)"
  have ev1: "events ?w1 = events w @ [EvMkdirAll ?d]" by simp
  show ?thesis
  proof (cases r)
    case (Some err)
    with mk show ?thesis by (subst copyTree.simps) (simp add: Let_def)
  next
    case None
    show ?thesis
    proof (cases "ioutil_ReadDir os f1 srcDir")
      case (Inl err)
      with mk None show ?thesis by (subst copyTree.simps) (simp add: Let_def)
    next
      case (Inr entries)
      let ?body = "\<lambda>entry w.
                    let n = fi_Name entry; s = filepath_Join os srcDir n in
                    if lookup_bool (skipFiles w) n then
                      Some (None, emit (EvStderr (Skipping s)) w)
                    else
                      (case (if fi_Mode entry AND ModeSymlink = ModeSymlink
                             then os_Stat os (fs w) s else Inr entry) of
                         Inl err \<Rightarrow> Some (Some (UnableToStat s err), w)
                       | Inr entry \<Rightarrow>
                           let d = filepath_Join os dstDir n in
                           if IsDir entry then Some (None, w)
                           else
                             (case copyFile os dstRoot d s w of
                                (Some err, w') \<Rightarrow> Some (Some (UnableToCopyDir s d err), w')
                              | (None, w') \<Rightarrow>
                                  Some (None,
                                    emit (EvStderr (Copied s (filepath_Join os dstRoot d))) w')))"
      have eq: "copyTree os dstRoot dstDir srcDir False w = for_each ?body entries ?w1"
        using mk None Inr
        by (subst copyTree.simps) (simp add: Let_def cong: if_cong sum.case_cong)
      have "\<exists>y. ?body x w0 = Some y \<and> adds ?p w0 (snd y)" for x w0
      proof -
        have cf: "adds ?p w0 w'" if "copyFile os dstRoot d s w0 = (r, w')" for d s r w'
          using copyFile_adds[of ?p w0 os dstRoot d s] that by simp
        show ?thesis
          by (auto simp: Let_def split: sum.splits prod.splits option.splits
                intro!: adds_emit adds_emit_after intro: cf)
      qed
      from for_each_total[of entries ?body ?p ?w1, OF this] obtain y where
        y: "for_each ?body entries ?w1 = Some y" "adds ?p ?w1 (snd y)" by blast
      from y(2) obtain es where "events (snd y) = events ?w1 @ es" "list_all ?p es"
        by (auto simp: adds_def)
      with y(1) eq show ?thesis by (cases y) auto
    qed
  qed
qed

lemma mkdirs_append [simp]: "mkdirs (xs @ ys) = mkdirs xs @ mkdirs ys"
  by (induction xs rule: mkdirs.induct) simp_all

lemma stdout_lines_append [simp]: "stdout_lines (xs @ ys) = stdout_lines xs @ stdout_lines ys"
  by (induction xs rule: stdout_lines.induct) simp_all

lemma mkdirs_none: "list_all (\<lambda>e. \<not> is_mkdir e) es \<Longrightarrow> mkdirs es = []"
  by (induction es rule: mkdirs.induct) simp_all

lemma stdout_lines_none: "list_all (\<lambda>e. \<not> is_stdout e) es \<Longrightarrow> stdout_lines es = []"
  by (induction es rule: stdout_lines.induct) simp_all

text \<open>The bundler returns, and creates one directory for each package.\<close>

lemma bundle_deps_flat:
  "\<exists>r w'. bundle_deps os src dst vendorDir deps w = Some (r, w') \<and>
     (\<exists>es. events w' = events w @ es \<and>
        (r = None \<longrightarrow>
           mkdirs es =
             map (\<lambda>p. filepath_Join os dst (filepath_Join os vendorDir (ImportPath p))) deps))"
proof (induction deps arbitrary: w)
  case Nil
  show ?case by (simp add: bundle_deps_def)
next
  case (Cons p ps)
  let ?dstDir = "filepath_Join os vendorDir (ImportPath p)"
  let ?srcDir = "filepath_Join os (SrcRoot p) (ImportPath p)"
  from copyTree_flat[of os dst ?dstDir ?srcDir w] obtain r1 w1 es1 where
    c: "copyTree os dst ?dstDir ?srcDir False w = Some (r1, w1)" and
    e1: "events w1 = events w @ EvMkdirAll (filepath_Join os dst ?dstDir) # es1" and
    n1: "list_all (\<lambda>e. \<not> is_mkdir e) es1"
    by blast
  show ?case
  proof (cases r1)
    case (Some err)
    with c e1 show ?thesis by (simp add: bundle_deps_def Let_def)
  next
    case None
    from Cons.IH[of w1] obtain r w' es where
      b: "bundle_deps os src dst vendorDir ps w1 = Some (r, w')" and
      e: "events w' = events w1 @ es" and
      m: "r = None \<longrightarrow> mkdirs es =
             map (\<lambda>p. filepath_Join os dst (filepath_Join os vendorDir (ImportPath p))) ps"
      by blast
    from c None b have "bundle_deps os src dst vendorDir (p # ps) w = Some (r, w')"
      by (simp add: bundle_deps_def Let_def)
    moreover from e e1
    have "events w' = events w @ (EvMkdirAll (filepath_Join os dst ?dstDir) # es1 @ es)"
      by simp
    moreover from m n1
    have "r = None \<longrightarrow> mkdirs (EvMkdirAll (filepath_Join os dst ?dstDir) # es1 @ es) =
       map (\<lambda>p. filepath_Join os dst (filepath_Join os vendorDir (ImportPath p))) (p # ps)"
      by (simp add: mkdirs_none)
    ultimately show ?thesis by blast
  qed
qed

lemma bundle_deps_adds:
  assumes "bundle_deps os src dst vendorDir deps w = Some y"
  shows "adds copy_event w (snd y)"
proof (rule for_each_adds[OF _ assms[unfolded bundle_deps_def]])
  fix x w0 y0
  assume "(let dstDir = filepath_Join os vendorDir (ImportPath x);
              srcDir = filepath_Join os (SrcRoot x) (ImportPath x) in
          Option.bind (copyTree os dst dstDir srcDir False w0)
            (\<lambda>(r, w'). case r of
                 Some err \<Rightarrow> Some (Some (UnableToCopyDirectory srcDir dstDir err), w')
               | None \<Rightarrow> Some (None, w'))) = Some y0"
  then show "adds copy_event w0 (snd y0)"
    by (auto simp: Let_def bind_eq_Some_conv split: option.splits dest!: copyTree_adds)
qed

lemma analyze_adds:
  assumes "analyze os dir ctx enforceMain w = Some y"
  shows "adds resolve_event w (snd y) \<and> fs (snd y) = fs w"
proof (cases "filepath_Abs os (fs w) dir")
  case (Inl err)
  with assms show ?thesis by (auto simp: analyze_def)
next
  case absDir: (Inr absDir)
  show ?thesis
  proof (cases "build_ImportDir os (fs w) ctx absDir")
    case (Inl err)
    with assms absDir show ?thesis by (auto simp: analyze_def intro!: adds_emit)
  next
    case (Inr root)
    obtain r w' where y: "y = (r, w')" by (cases y)
    from analyze_trace[OF absDir Inr assms[unfolded y]] obtain A where
      A: "events w' = events w @ EvImportDir absDir # map edge_event A" by blast
    have ev: "list_all resolve_event (EvImportDir absDir # map edge_event A)"
      by (simp add: list_all_iff edge_event_def)
    have frame: "fs w' = fs w \<and> skippedPackages w' = skippedPackages w \<and> skipFiles w' = skipFiles w"
    proof (cases "enforceMain \<and> \<not> IsCommand root")
      case True
      with assms absDir Inr y show ?thesis by (auto simp: analyze_def)
    next
      case False
      with assms absDir Inr y
      have "analyze_loop os ctx (edges_from absDir (Imports root)) Map.empty Map.empty []
              (emit (EvImportDir absDir) w) = Some (r, w')"
        by (auto simp: analyze_def edges_from_def)
      from analyze_loop_post[OF this] show ?thesis by (auto simp: run_trace_def)
    qed
    with A ev y show ?thesis unfolding adds_def by auto
  qed
qed

text \<open>The events of a file copy, of a non-recursive copy and of the bundler that succeed.\<close>

lemma copyFile_success:
  "copyFile os dstRoot dst src w = (None, w') \<Longrightarrow>
   events w' = events w @ [EvCreate (filepath_Join os dstRoot dst),
                           EvCopy (filepath_Join os dstRoot dst) src] \<and>
   skipFiles w' = skipFiles w \<and> skippedPackages w' = skippedPackages w"
  by (auto simp: copyFile_def Let_def split: prod.splits option.splits)

lemma copyTree_flat_trace:
  assumes run: "copyTree os dstRoot dstDir srcDir False w = Some (None, w')"
  shows "flat_copy os (skipFiles w) dstRoot dstDir srcDir (new_events w w') \<and>
         events w' = events w @ new_events w w' \<and> skipFiles w' = skipFiles w"
proof -
  let ?d = "filepath_Join os dstRoot dstDir"
  let ?S = "skipFiles w"
  obtain r f1 where mk: "os_MkdirAll os (fs w) ?d = (r, f1)" by (cases "os_MkdirAll os (fs w) ?d")
  let ?w1 = "emit (EvMkdirAll ?d) (set_fs f1 w)"
  let ?body = "\<lambda>entry w.
                    let n = fi_Name entry; s = filepath_Join os srcDir n in
                    if lookup_bool (skipFiles w) n then
                      Some (None, emit (EvStderr (Skipping s)) w)
                    else
                      (case (if fi_Mode entry AND ModeSymlink = ModeSymlink
                             then os_Stat os (fs w) s else Inr entry) of
                         Inl err \<Rightarrow> Some (Some (UnableToStat s err), w)
                       | Inr entry \<Rightarrow>
                           let d = filepath_Join os dstDir n in
                           if IsDir entry then Some (None, w)
                           else
                             (case copyFile os dstRoot d s w of
                                (Some err, w') \<Rightarrow> Some (Some (UnableToCopyDir s d err), w')
                              | (None, w') \<Rightarrow>
                                  Some (None,
                                    emit (EvStderr (Copied s (filepath_Join os dstRoot d))) w')))"
  have r: "r = None"
    using run mk by (cases r) (simp_all add: copyTree.simps[of os dstRoot dstDir srcDir False w] Let_def)
  obtain entries where rd: "ioutil_ReadDir os f1 srcDir = Inr entries"
    using run mk r
    by (cases "ioutil_ReadDir os f1 srcDir")
       (simp_all add: copyTree.simps[of os dstRoot dstDir srcDir False w] Let_def)
  have eq: "copyTree os dstRoot dstDir srcDir False w = for_each ?body entries ?w1"
    using mk r rd
    by (subst copyTree.simps) (simp add: Let_def cong: if_cong sum.case_cong)
  have step: "\<exists>e'. entry_trace os ?S dstRoot dstDir srcDir x e' \<and>
                events w1 = events w0 @ e' \<and> skipFiles w1 = ?S"
    if "?body x w0 = Some (None, w1)" "skipFiles w0 = ?S" for x w0 w1
  proof (cases "lookup_bool ?S (fi_Name x)")
    case True
    with that show ?thesis by (auto simp: entry_trace_def Let_def)
  next
    case False
    let ?s = "filepath_Join os srcDir (fi_Name x)"
    let ?res = "if fi_Mode x AND ModeSymlink = ModeSymlink then os_Stat os (fs w0) ?s else Inr x"
    from that False obtain e' where res: "?res = Inr e'"
      by (cases ?res) (auto simp: Let_def)
    have resolved: "if is_symlink x then (\<exists>f. os_Stat os f ?s = Inr e') else e' = x"
      using res by (auto simp: is_symlink_def split: if_splits)
    show ?thesis
    proof (cases "IsDir e'")
      case True
      with that False res have "w1 = w0" by (simp add: Let_def)
      with that(2) False True resolved show ?thesis
        by (intro exI[of _ "[]"]) (auto simp: entry_trace_def)
    next
      case notdir: False
      from that False res notdir obtain wc where
        cf: "copyFile os dstRoot (filepath_Join os dstDir (fi_Name x)) ?s w0 = (None, wc)" and
        w1: "w1 = emit (EvStderr (Copied ?s (filepath_Join os dstRoot
                (filepath_Join os dstDir (fi_Name x))))) wc"
        by (auto simp: Let_def split: prod.splits option.splits)
      from copyFile_success[OF cf] w1 that(2)
      have "events w1 = events w0 @ file_copy_events os dstRoot dstDir srcDir (fi_Name x)"
        and "skipFiles w1 = ?S"
        by (simp_all add: file_copy_events_def)
      with False notdir resolved show ?thesis
        by (intro exI[of _ "file_copy_events os dstRoot dstDir srcDir (fi_Name x)"])
           (auto simp: entry_trace_def)
    qed
  qed
  have loop: "\<exists>ess. list_all2 (entry_trace os ?S dstRoot dstDir srcDir) xs ess \<and>
                events w2 = events w0 @ concat ess \<and> skipFiles w2 = ?S"
    if "for_each ?body xs w0 = Some (None, w2)" "skipFiles w0 = ?S" for xs w0 w2
    using that
  proof (induction xs arbitrary: w0)
    case Nil
    then show ?case by (intro exI[of _ "[]"]) simp
  next
    case (Cons x xs)
    from Cons.prems(1) obtain r1 w1 where b: "?body x w0 = Some (r1, w1)"
      by (auto simp: bind_eq_Some_conv simp del: Let_def)
    have r1: "r1 = None" using Cons.prems(1) b by (cases r1) (simp_all del: Let_def)
    with Cons.prems(1) b have rest: "for_each ?body xs w1 = Some (None, w2)"
      by (simp del: Let_def)
    from step[OF b[unfolded r1] Cons.prems(2)] obtain e' where
      e': "entry_trace os ?S dstRoot dstDir srcDir x e'" "events w1 = events w0 @ e'"
        "skipFiles w1 = ?S" by blast
    from Cons.IH[OF rest e'(3)] obtain ess where
      ess: "list_all2 (entry_trace os ?S dstRoot dstDir srcDir) xs ess"
        "events w2 = events w1 @ concat ess" "skipFiles w2 = ?S" by blast
    from e' ess show ?case by (intro exI[of _ "e' # ess"]) simp
  qed
  from run eq have "for_each ?body entries ?w1 = Some (None, w')" by simp
  from loop[OF this] obtain ess where
    ess: "list_all2 (entry_trace os ?S dstRoot dstDir srcDir) entries ess"
      "events w' = events ?w1 @ concat ess" "skipFiles w' = ?S" by auto
  from ess(2) have ev: "events w' = events w @ EvMkdirAll ?d # concat ess" by simp
  then have ne: "new_events w w' = EvMkdirAll ?d # concat ess" by simp
  from rd ess(1) ne have "flat_copy os ?S dstRoot dstDir srcDir (new_events w w')"
    unfolding flat_copy_def by blast
  with ev ne ess(3) show ?thesis by simp
qed

lemma bundle_deps_trace:
  assumes "bundle_deps os src dst vendorDir deps w = Some (None, w')"
  shows "\<exists>ess.
           list_all2
             (\<lambda>p es. flat_copy os (skipFiles w) dst (filepath_Join os vendorDir (ImportPath p))
                        (filepath_Join os (SrcRoot p) (ImportPath p)) es)
             deps ess \<and>
           events w' = events w @ concat ess \<and> skipFiles w' = skipFiles w"
  using assms
proof (induction deps arbitrary: w)
  case Nil
  then show ?case by (intro exI[of _ "[]"]) (simp add: bundle_deps_def)
next
  case (Cons p ps)
  let ?dstDir = "filepath_Join os vendorDir (ImportPath p)"
  let ?srcDir = "filepath_Join os (SrcRoot p) (ImportPath p)"
  from Cons.prems obtain r1 w1 where
    c: "copyTree os dst ?dstDir ?srcDir False w = Some (r1, w1)"
    by (auto simp: bundle_deps_def Let_def bind_eq_Some_conv)
  have r1: "r1 = None"
    using Cons.prems c by (cases r1) (simp_all add: bundle_deps_def Let_def)
  with Cons.prems c have rest: "bundle_deps os src dst vendorDir ps w1 = Some (None, w')"
    by (simp add: bundle_deps_def Let_def)
  from copyTree_flat_trace[OF c[unfolded r1]] have
    f: "flat_copy os (skipFiles w) dst ?dstDir ?srcDir (new_events w w1)" and
    e1: "events w1 = events w @ new_events w w1" and s1: "skipFiles w1 = skipFiles w"
    by blast+
  from Cons.IH[OF rest] s1 obtain ess where
    ess: "list_all2
             (\<lambda>p es. flat_copy os (skipFiles w) dst (filepath_Join os vendorDir (ImportPath p))
                        (filepath_Join os (SrcRoot p) (ImportPath p)) es)
             ps ess"
      "events w' = events w1 @ concat ess" "skipFiles w' = skipFiles w"
    by auto
  from e1 ess(2) have "events w' = events w @ concat (new_events w w1 # ess)"
    by (simp del: new_events_append)
  with f ess(1,3) show ?case
    by (intro exI[of _ "new_events w w1 # ess"]) (simp del: new_events_append)
qed

section \<open>Runs of the command\<close>

lemma resolve_event_run: "resolve_event e \<Longrightarrow> run_event e"
  by (cases e) simp_all

lemma copy_event_run: "copy_event e \<Longrightarrow> run_event e"
  by (cases e) simp_all


lemma run_event_not_stdout: "run_event e \<Longrightarrow> \<not> is_stdout e"
  by (cases e) simp_all

lemma stage_pass_adds:
  assumes "stage_pass os src dst tags enforceMain vendorDir v w = Some y"
  shows "adds run_event w (snd y)"
proof -
  let ?ctx = "buildContext os tags v"
  from assms obtain r w1 where an: "analyze os src ?ctx enforceMain w = Some (r, w1)"
    by (auto simp: stage_pass_def Let_def bind_eq_Some_conv)
  from analyze_adds[OF an] have a1: "adds run_event w w1"
    by (auto elim!: adds_mono intro: resolve_event_run)
  show ?thesis
  proof (cases r)
    case (Inl err)
    with assms an a1 show ?thesis
      by (auto simp: stage_pass_def Let_def intro!: adds_emit_after)
  next
    case (Inr deps)
    with assms an obtain r2 w2 where b: "bundle_deps os src dst vendorDir deps w1 = Some (r2, w2)"
      by (auto simp: stage_pass_def Let_def bind_eq_Some_conv)
    from bundle_deps_adds[OF b] have "adds run_event w1 w2"
      by (auto elim!: adds_mono intro: copy_event_run)
    with a1 have "adds run_event w w2" by (rule adds_trans)
    with assms an Inr b show ?thesis
      by (auto simp: stage_pass_def Let_def intro!: adds_emit_after split: option.splits)
  qed
qed

lemma stage_pass_exit:
  assumes "stage_pass os src dst tags enforceMain vendorDir v w = Some (Some code, w')"
  shows "code = 1 \<and> (\<exists>d w0. w' = emit (EvStderr d) w0)"
proof -
  let ?ctx = "buildContext os tags v"
  from assms obtain r w1 where an: "analyze os src ?ctx enforceMain w = Some (r, w1)"
    by (auto simp: stage_pass_def Let_def bind_eq_Some_conv)
  show ?thesis
  proof (cases r)
    case (Inl err)
    with assms an show ?thesis by (auto simp: stage_pass_def Let_def)
  next
    case (Inr deps)
    with assms an obtain r2 w2 where b: "bundle_deps os src dst vendorDir deps w1 = Some (r2, w2)"
      by (auto simp: stage_pass_def Let_def bind_eq_Some_conv)
    with assms an Inr show ?thesis
      by (cases r2) (auto simp: stage_pass_def Let_def)
  qed
qed

lemma for_each_exit:
  assumes "for_each body xs w = Some (Some code, w')"
  shows "\<exists>x w0. body x w0 = Some (Some code, w')"
  using assms
proof (induction xs arbitrary: w)
  case Nil
  then show ?case by simp
next
  case (Cons x xs)
  then show ?case
    by (auto simp: bind_eq_Some_conv split: option.splits)
qed

text \<open>The part of a run of the command that follows the parsing of the manifest.\<close>

lemma main_staging:
  assumes "length args = 2"
    and "ioutil_ReadFile os (fs w) (args ! 0) = Inr contents"
    and "yaml_Unmarshal os contents = Inr c"
    and "staging_mode os c w = ((tags, enforceMain, vendorDir), ws)"
    and "main os args w = Some (code, w')"
  shows "adds run_event ws w' \<and> (code = 0 \<or> code = 1) \<and>
         (code = 1 \<longrightarrow> (\<exists>d w0. w' = emit (EvStderr d) w0))"
proof -
  let ?src = "filepath_Dir os (args ! 0)"
  let ?dst = "args ! 1"
  let ?body = "stage_pass os ?src ?dst tags enforceMain vendorDir"
  from assms obtain exited w1 where
    fe: "for_each ?body minorVersions ws = Some (exited, w1)"
    by (auto simp: main_def Let_def bind_eq_Some_conv)
  have "adds run_event ws (snd (exited, w1))"
    by (rule for_each_adds[OF _ fe]) (rule stage_pass_adds)
  then have a1: "adds run_event ws w1" by simp
  show ?thesis
  proof (cases exited)
    case (Some c1)
    with assms fe have eq: "code = c1" "w' = w1"
      by (auto simp: main_def Let_def)
    from for_each_exit[OF fe[unfolded Some]] obtain x w0 where
      "?body x w0 = Some (Some c1, w1)" by blast
    from stage_pass_exit[OF this] eq a1 show ?thesis by auto
  next
    case None
    with assms fe obtain r w2 where
      ct: "copyTree os ?dst ''.'' ?src True w1 = Some (r, w2)"
      by (auto simp: main_def Let_def bind_eq_Some_conv)
    from copyTree_adds[OF ct] have "adds run_event w1 w2"
      by (auto elim!: adds_mono intro: copy_event_run)
    with a1 have a2: "adds run_event ws w2" by (rule adds_trans)
    from assms fe None ct a2 show ?thesis
      by (cases r) (auto simp: main_def Let_def intro!: adds_emit_after)
  qed
qed

lemma staging_mode_world:
  "staging_mode os c w = ((tags, enforceMain, vendorDir), ws) \<Longrightarrow>
   events ws = events w \<and> skipFiles ws = skipFiles w \<and> fs ws = fs w \<and>
   skippedPackages ws =
     (if isFlex c then (skippedPackages w)(''appengine'' \<mapsto> False) else skippedPackages w)"
  by (auto simp: staging_mode_def split: if_splits)

text \<open>The ways in which a run of the command ends.\<close>

lemma main_cases:
  assumes "main os args w = Some (code, w')"
  obtains (usage) "length args \<noteq> 2" "code = 1" "w' = emit (EvStderr Usage) w"
  | (read) err where "length args = 2" "ioutil_ReadFile os (fs w) (args ! 0) = Inl err"
      "code = 1" "w' = emit (EvStderr (FailedToRead (args ! 0) err)) w"
  | (parse) contents err where "length args = 2"
      "ioutil_ReadFile os (fs w) (args ! 0) = Inr contents"
      "yaml_Unmarshal os contents = Inl err"
      "code = 1" "w' = emit (EvStderr (FailedToUnmarshal err)) w"
  | (staged) contents c tags enforceMain vendorDir ws where "length args = 2"
      "ioutil_ReadFile os (fs w) (args ! 0) = Inr contents"
      "yaml_Unmarshal os contents = Inr c"
      "staging_mode os c w = ((tags, enforceMain, vendorDir), ws)"
proof (cases "length args = 2")
  case False
  with assms usage show ?thesis by (auto simp: main_def)
next
  case len: True
  show ?thesis
  proof (cases "ioutil_ReadFile os (fs w) (args ! 0)")
    case (Inl err)
    with assms len read show ?thesis by (auto simp: main_def Let_def)
  next
    case (Inr contents)
    show ?thesis
    proof (cases "yaml_Unmarshal os contents")
      case (Inl err)
      with assms len Inr parse show ?thesis by (auto simp: main_def Let_def)
    next
      case c: (Inr c)
      obtain tags enforceMain vendorDir ws where
        "staging_mode os c w = ((tags, enforceMain, vendorDir), ws)"
        by (metis prod.exhaust)
      with len Inr c staged show ?thesis by blast
    qed
  qed
qed


section \<open>Running the command on the concrete application\<close>

lemma fixture_os_simps2 [simp]:
  "ioutil_ReadFile (fixture_os pkgs dirs files) f p = map_sum id snd (fx_find (\<lambda>e. fst e = p) files)"
  "yaml_Unmarshal (fixture_os pkgs dirs files) = fx_Unmarshal"
  "os_MkdirAll (fixture_os pkgs dirs files) f p = (None, f)"
  "ioutil_ReadDir (fixture_os pkgs dirs files) f p = map_sum id snd (fx_find (\<lambda>e. fst e = p) dirs)"
  "os_Stat (fixture_os pkgs dirs files) f p = Inl (ExternalError ''no such file'')"
  "os_Open (fixture_os pkgs dirs files) f p = (None, f)"
  "os_Create (fixture_os pkgs dirs files) f p = (None, f)"
  "io_Copy (fixture_os pkgs dirs files) f d s = (None, f)"
  "file_Close (fixture_os pkgs dirs files) f p = (None, f)"
  by (simp_all add: fixture_os_def)

lemma set_fs_unit [simp]: "set_fs (f :: unit) w = w"
  by (cases w) (simp add: set_fs_def)

lemma deferred_Close_unit [simp]: "deferred_Close os src (w :: unit world) = w"
  by (simp add: deferred_Close_def)

lemma skipFiles_init_apply:
  "skipFiles_init k = map_of
    [(''.git'', True), (''.gitconfig'', True), (''.hg'', True), (''.travis.yml'', True)] k"
  by (simp add: skipFiles_init_def)

lemma mode_simps [simp]:
  "fi_Mode (regular_file n) AND ModeSymlink \<noteq> ModeSymlink"
  "fi_Mode (directory n) AND ModeSymlink \<noteq> ModeSymlink"
  "\<not> IsDir (regular_file n)"
  "IsDir (directory n)"
  "fi_Name (regular_file n) = n"
  "fi_Name (directory n) = n"
  by (simp_all add: regular_file_def directory_def IsDir_def ModeDir_def ModeSymlink_def)

lemmas stage_eval =
  main_def staging_mode_def stage_pass_def minorVersions_def bundle_deps_def
  copyTree.simps copyFile_def isFlex_def fx_Unmarshal_def fx_Dir_def skipFiles_init_apply
  analyze_eval

lemma standard_run:
  "main standard_os [''/gopath/src/app/app.yaml'', ''/out''] (initial_world ()) =
   Some (0, standard_final)"
  by (simp add: standard_os_def staged_dirs_def staged_pkgs_def stage_eval)
     (simp add: standard_final_def pass_trace_def bundle_trace_def root_copy_trace_def emit_def
        initial_world_def)


lemma bundle_run:
  "bundle_deps flexible_os ''/gopath/src/app'' ''/out'' ''_gopath/src''
     [gopath_pkg ''a'' ''a'' []] (initial_world ()) =
   Some (None, initial_world ()\<lparr>events := bundle_trace ''/out/_gopath/src/a''\<rparr>)"
  by (simp add: flexible_os_def staged_dirs_def staged_pkgs_def stage_eval)
     (simp add: bundle_trace_def emit_def initial_world_def)

lemma recursive_copy_run:
  "copyTree flexible_os ''/out'' ''_gopath/src/a'' ''/gopath/src/a'' True (initial_world ()) =
   Some (None, initial_world ()\<lparr>events :=
     bundle_trace ''/out/_gopath/src/a'' @ subdir_trace ''/out/_gopath/src/a''\<rparr>)"
  by (simp add: flexible_os_def staged_dirs_def staged_pkgs_def stage_eval)
     (simp add: bundle_trace_def subdir_trace_def emit_def initial_world_def)


section \<open>Properties of the dependency analyzer\<close>

text \<open>
  Claim C9.  When \<open>enforceMain\<close> is set and the package found in the application root is
  not a command (its name is not \<^verbatim>\<open>main\<close>), \<^verbatim>\<open>analyze\<close> returns the error
  \<^verbatim>\<open>the root of your app needs to be package "main"\<close> and no package list; the only
  call it has made is the \<^verbatim>\<open>ImportDir\<close> of the root, so no import has been resolved.
\<close>

theorem analyze_requires_entry_point:
  assumes "filepath_Abs os (fs w) dir = Inr absDir"
    and "build_ImportDir os (fs w) ctx absDir = Inr root"
    and "\<not> IsCommand root"
  shows "analyze os dir ctx True w =
           Some (Inl (RootNotMain (Name root)), emit (EvImportDir absDir) w)
         \<and> resolutions (new_events w (emit (EvImportDir absDir) w)) = []"
  using assms by (simp add: analyze_def new_events_def emit_def)

theorem analyze_requires_entry_point_witness:
  "analyze (fixture_os library_app [] []) ''/gopath/src/app'' (level6 [''appenginevm'']) True
     (initial_world ()) =
   Some (Inl (RootNotMain ''www''), emit (EvImportDir ''/gopath/src/app'') (initial_world ()))"
proof -
  let ?os = "fixture_os library_app [] []"
  let ?w = "initial_world ()"
  have 1: "filepath_Abs ?os (fs ?w) ''/gopath/src/app'' = Inr ''/gopath/src/app''"
    by (simp add: fixture_os_def)
  have 2: "build_ImportDir ?os (fs ?w) (level6 [''appenginevm'']) ''/gopath/src/app'' =
    Inr (gopath_pkg ''www'' ''app'' [''net/http'', ''a''])"
    by (simp add: fixture_os_def library_app_def fx_find_def gopath_pkg_def)
  have 3: "\<not> IsCommand (gopath_pkg ''www'' ''app'' [''net/http'', ''a''])"
    by (simp add: IsCommand_def gopath_pkg_def)
  from analyze_requires_entry_point[OF 1 2 3] show ?thesis
    by (simp add: gopath_pkg_def)
qed

text \<open>
  Claim C5, as amended.  A pass of the analyzer calls \<^verbatim>\<open>ctx.Import\<close> at most once for each
  pair of import path and origin directory, and only for pairs that are reachable from the
  root and whose first path segment is not skipped.  When the pass returns a package list,
  the pairs it resolved are exactly those, so the number of resolution attempts is the
  number of reachable pairs that are not skipped.
\<close>

theorem analyze_resolves_each_edge_once:
  assumes "filepath_Abs os (fs w) dir = Inr absDir"
    and "build_ImportDir os (fs w) ctx absDir = Inr root"
    and "analyze os dir ctx enforceMain w = Some (r, w')"
  shows "distinct (resolutions (new_events w w')) \<and>
         set (resolutions (new_events w w')) \<subseteq>
           resolved_edges os (fs w) ctx (skippedPackages w) (edges_from absDir (Imports root)) \<and>
         (\<not> isl r \<longrightarrow>
            set (resolutions (new_events w w')) =
              resolved_edges os (fs w) ctx (skippedPackages w) (edges_from absDir (Imports root)) \<and>
            length (resolutions (new_events w w')) =
              card (resolved_edges os (fs w) ctx (skippedPackages w)
                      (edges_from absDir (Imports root))))"
proof -
  let ?E = "resolved_edges os (fs w) ctx (skippedPackages w) (edges_from absDir (Imports root))"
  from analyze_trace[OF assms] obtain A where
    A: "events w' = events w @ EvImportDir absDir # map edge_event A" "distinct A" "set A \<subseteq> ?E"
    by blast
  from A(1) have res: "resolutions (new_events w w') = A" by simp
  have "set A = ?E \<and> length A = card ?E" if "\<not> isl r"
  proof -
    from that obtain pkgs where "r = Inr pkgs" by (cases r) auto
    with assms(3) have "analyze os dir ctx enforceMain w = Some (Inr pkgs, w')" by simp
    from analyze_success[OF assms(1,2) this] obtain B where
      B: "events w' = events w @ EvImportDir absDir # map edge_event B" "distinct B" "set B = ?E"
      by blast
    from B(1) have "resolutions (new_events w w') = B" by simp
    with res have "A = B" by simp
    with B show ?thesis by (auto dest: distinct_card)
  qed
  with A res show ?thesis by simp
qed

theorem analyze_resolves_each_edge_once_witness:
  "length (resolutions (new_events (initial_world ())
     (emit (EvImport ''c'' ''/gopath/src/b'')
       (emit (EvImport ''c'' ''/gopath/src/a'')
          (emit (EvImport ''b'' ''/gopath/src/app'')
             (emit (EvImport ''a'' ''/gopath/src/app'')
                (emit (EvImportDir ''/gopath/src/app'') (initial_world ())))))))) =
   card (resolved_edges (fixture_os diamond_app [] []) () (level6 [''appengine''])
           skippedPackages_init (edges_from ''/gopath/src/app'' [''a'', ''b'']))"
proof -
  have 1: "filepath_Abs (fixture_os diamond_app [] []) (fs (initial_world ())) ''/gopath/src/app''
    = Inr ''/gopath/src/app''" by simp
  have 2: "build_ImportDir (fixture_os diamond_app [] []) (fs (initial_world ()))
    (level6 [''appengine'']) ''/gopath/src/app'' = Inr (gopath_pkg ''main'' ''app'' [''a'', ''b''])"
    by (simp add: diamond_app_def fx_find_def gopath_pkg_def)
  from analyze_resolves_each_edge_once[OF 1 2 diamond_run] show ?thesis
    by (simp add: gopath_pkg_def)
qed

text \<open>
  The claim C5 as stated counts all reachable pairs.  The application \<open>hello_app\<close> imports
  \<^verbatim>\<open>fmt\<close> only: one pair is reachable from the root, and the analyzer resolves none.
\<close>

theorem analyze_attempts_counterexample:
  "analyze (fixture_os hello_app [] []) ''/gopath/src/app'' (level6 [''appengine'']) False
     (initial_world ()) =
     Some (Inr [], emit (EvImportDir ''/gopath/src/app'') (initial_world ())) \<and>
   length (resolutions (new_events (initial_world ())
     (emit (EvImportDir ''/gopath/src/app'') (initial_world ())))) = 0 \<and>
   card (reach (fixture_os hello_app [] []) () (level6 [''appengine'']) skippedPackages_init
     (edges_from ''/gopath/src/app'' [''fmt''])) = 1"
  by (simp add: hello_run hello_reach new_events_def)

text \<open>
  Claim C6.  When the set of pairs reachable from the root is finite and every reachable
  pair that is not skipped resolves, the analyzer returns, it returns a package list and
  not an error, and the package of every such pair occurs in the list exactly once (counted
  by the key \<^verbatim>\<open>filepath.Join(pkg.SrcRoot, pkg.ImportPath)\<close>).  Cycles of imports are
  not excluded.  Termination is proved from the measure of the claim: the number of
  reachable pairs outside the visited map, which decreases with every resolution.
\<close>

theorem analyze_terminates_on_finite_graph:
  assumes "filepath_Abs os (fs w) dir = Inr absDir"
    and "build_ImportDir os (fs w) ctx absDir = Inr root"
    and "enforceMain \<longrightarrow> IsCommand root"
    and "finite (reach os (fs w) ctx (skippedPackages w) (edges_from absDir (Imports root)))"
    and "\<forall>e\<in>resolved_edges os (fs w) ctx (skippedPackages w) (edges_from absDir (Imports root)).
           \<exists>p. resolve os (fs w) ctx e = Inr p"
  shows "\<exists>pkgs w'. analyze os dir ctx enforceMain w = Some (Inr pkgs, w') \<and>
           (\<forall>e\<in>resolved_edges os (fs w) ctx (skippedPackages w)
                  (edges_from absDir (Imports root)).
              \<forall>p. resolve os (fs w) ctx e = Inr p \<longrightarrow>
                length (filter (\<lambda>q. filepath_Join os (SrcRoot q) (ImportPath q) =
                                     filepath_Join os (SrcRoot p) (ImportPath p)) pkgs) = 1)"
proof -
  let ?w = "emit (EvImportDir absDir) w"
  let ?q = "edges_from absDir (Imports root)"
  let ?E = "resolved_edges os (fs w) ctx (skippedPackages w) ?q"
  have loop: "analyze os dir ctx enforceMain w =
      analyze_loop os ctx ?q Map.empty Map.empty [] ?w"
    using assms(1,2,3) by (auto simp: analyze_def edges_from_def)
  have "finite (reach os (fs ?w) ctx (skippedPackages ?w) ?q)" using assms(4) by simp
  from analyze_loop_terminates[OF this] obtain r w' where
    run: "analyze_loop os ctx ?q Map.empty Map.empty [] ?w = Some (r, w')"
    by fastforce
  from analyze_loop_post[OF run] obtain A where
    t: "run_trace os ctx ?q Map.empty ?w w' A" and
    f: "\<And>err. r = Inl err \<Longrightarrow> \<exists>e\<in>set A. resolve os (fs w) ctx e = Inl err"
    by (cases r) auto
  from t have sub: "set A \<subseteq> ?E" by (auto simp: run_trace_def resolved_edges_def)
  obtain pkgs where r: "r = Inr pkgs"
  proof (cases r)
    case (Inl err)
    from f[OF this] sub assms(5) show ?thesis by fastforce
  next
    case (Inr pkgs)
    with that show ?thesis .
  qed
  with run loop have an: "analyze os dir ctx enforceMain w = Some (Inr pkgs, w')" by simp
  from analyze_success[OF assms(1,2) an]
  have key: "\<forall>e\<in>?E. \<exists>p. resolve os (fs w) ctx e = Inr p \<and> pkg_key os p \<in> pkg_key os ` set pkgs"
    and d: "distinct (map (pkg_key os) pkgs)" by blast+
  have "length (filter (\<lambda>q. pkg_key os q = pkg_key os p) pkgs) = 1"
    if "e \<in> ?E" "resolve os (fs w) ctx e = Inr p" for e p
  proof -
    from key that have "pkg_key os p \<in> pkg_key os ` set pkgs" by fastforce
    from exactly_one[OF d this] show ?thesis .
  qed
  with an show ?thesis by (auto simp: pkg_key_def)
qed

text \<open>The cycle of the claim: the root imports \<open>a\<close>, \<open>a\<close> imports \<open>b\<close>, \<open>b\<close> imports \<open>a\<close>.\<close>

theorem analyze_terminates_on_finite_graph_witness:
  "\<exists>pkgs w'. analyze (fixture_os cyclic_app [] []) ''/gopath/src/app'' (level6 [''appengine''])
       False (initial_world ()) = Some (Inr pkgs, w') \<and>
     length (filter (\<lambda>q. fx_Join (SrcRoot q) (ImportPath q) = ''/gopath/src/a'') pkgs) = 1 \<and>
     length (filter (\<lambda>q. fx_Join (SrcRoot q) (ImportPath q) = ''/gopath/src/b'') pkgs) = 1"
proof -
  let ?os = "fixture_os cyclic_app [] []"
  let ?ctx = "level6 [''appengine'']"
  let ?root = "gopath_pkg ''main'' ''app'' [''fmt'', ''a'']"
  let ?q = "edges_from ''/gopath/src/app'' (Imports ?root)"
  let ?ea = "\<lparr>path = ''a'', fromDir = ''/gopath/src/app''\<rparr>"
  let ?eb = "\<lparr>path = ''b'', fromDir = ''/gopath/src/a''\<rparr>"
  have q: "?q = edges_from ''/gopath/src/app'' [''fmt'', ''a'']" by (simp add: gopath_pkg_def)
  have 1: "filepath_Abs ?os (fs (initial_world ())) ''/gopath/src/app'' = Inr ''/gopath/src/app''"
    by simp
  have 2: "build_ImportDir ?os (fs (initial_world ())) ?ctx ''/gopath/src/app'' = Inr ?root"
    by (simp add: cyclic_app_def fx_find_def gopath_pkg_def)
  have 3: "False \<longrightarrow> IsCommand ?root" by simp
  have 4: "finite (reach ?os (fs (initial_world ())) ?ctx (skippedPackages (initial_world ())) ?q)"
    unfolding q using cyclic_reach by (simp add: finite_subset)
  have 5: "\<forall>e\<in>resolved_edges ?os (fs (initial_world ())) ?ctx
                (skippedPackages (initial_world ())) ?q.
             \<exists>p. resolve ?os (fs (initial_world ())) ?ctx e = Inr p"
    unfolding q using cyclic_reach
    by (auto simp: resolved_edges_def skipped_def lookup_bool_def firstPart_eq
          skippedPackages_init_apply resolve_def cyclic_app_def fx_find_def)
  have ra: "resolve ?os () ?ctx ?ea = Inr (gopath_pkg ''a'' ''a'' [''b''])"
    by (simp add: resolve_def cyclic_app_def fx_find_def)
  have rb: "resolve ?os () ?ctx ?eb =
      Inr (gopath_pkg ''b'' ''b'' [''a'', ''strings''])"
    by (simp add: resolve_def cyclic_app_def fx_find_def)
  have nsa: "\<not> skipped skippedPackages_init ?ea" and nsb: "\<not> skipped skippedPackages_init ?eb"
    by (simp_all add: skipped_def lookup_bool_def firstPart_eq skippedPackages_init_apply)
  have a: "?ea \<in> reach ?os () ?ctx skippedPackages_init ?q"
    by (rule reach.queued) (simp add: edges_from_def gopath_pkg_def)
  have b: "?eb \<in> reach ?os () ?ctx skippedPackages_init ?q"
    by (rule reach.imported[OF a nsa ra]) (simp add: edges_from_def gopath_pkg_def)
  from a b nsa nsb have mem: "?ea \<in> resolved_edges ?os () ?ctx skippedPackages_init ?q"
    "?eb \<in> resolved_edges ?os () ?ctx skippedPackages_init ?q"
    by (simp_all add: resolved_edges_def)
  from analyze_terminates_on_finite_graph[OF 1 2 3 4 5] obtain pkgs w' where
    run: "analyze ?os ''/gopath/src/app'' ?ctx False (initial_world ()) = Some (Inr pkgs, w')"
    and once: "\<forall>e\<in>resolved_edges ?os () ?ctx skippedPackages_init ?q.
              \<forall>p. resolve ?os () ?ctx e = Inr p \<longrightarrow>
                length (filter (\<lambda>q. fx_Join (SrcRoot q) (ImportPath q) =
                                     fx_Join (SrcRoot p) (ImportPath p)) pkgs) = 1"
    by auto
  from once mem(1) ra have "length (filter (\<lambda>q. fx_Join (SrcRoot q) (ImportPath q) =
      fx_Join (SrcRoot (gopath_pkg ''a'' ''a'' [''b''])) (ImportPath (gopath_pkg ''a'' ''a'' [''b'']))) pkgs) = 1"
    by simp
  moreover from once mem(2) rb have "length (filter (\<lambda>q. fx_Join (SrcRoot q) (ImportPath q) =
      fx_Join (SrcRoot (gopath_pkg ''b'' ''b'' [''a'', ''strings'']))
        (ImportPath (gopath_pkg ''b'' ''b'' [''a'', ''strings'']))) pkgs) = 1"
    by simp
  ultimately show ?thesis using run by (simp add: gopath_pkg_def fx_Join_def)
qed






text \<open>
  Claim C10.  Every package of the list that the analyzer returns is the result of
  resolving a reachable import edge; the package of the root directory is never appended on
  its own account.  With no edge to resolve the list is empty, and the root package is in
  the list only if some reachable edge resolves to it, which is then an import of the
  root's own import path when \<^verbatim>\<open>ctx.Import\<close> returns packages under the path asked for.
\<close>

theorem analyze_output_excludes_root:
  assumes "filepath_Abs os (fs w) dir = Inr absDir"
    and "build_ImportDir os (fs w) ctx absDir = Inr root"
    and "analyze os dir ctx enforceMain w = Some (Inr pkgs, w')"
  shows "(\<forall>p\<in>set pkgs.
            \<exists>e\<in>resolved_edges os (fs w) ctx (skippedPackages w) (edges_from absDir (Imports root)).
              resolve os (fs w) ctx e = Inr p) \<and>
         (resolved_edges os (fs w) ctx (skippedPackages w) (edges_from absDir (Imports root)) = {}
            \<longrightarrow> pkgs = []) \<and>
         (root \<in> set pkgs \<longrightarrow>
            (\<exists>e\<in>resolved_edges os (fs w) ctx (skippedPackages w)
                   (edges_from absDir (Imports root)).
               resolve os (fs w) ctx e = Inr root \<and>
               ((\<forall>e p. resolve os (fs w) ctx e = Inr p \<longrightarrow> ImportPath p = path e) \<longrightarrow>
                path e = ImportPath root)))"
proof -
  let ?E = "resolved_edges os (fs w) ctx (skippedPackages w) (edges_from absDir (Imports root))"
  from analyze_success[OF assms]
  have from_edge: "\<forall>p\<in>set pkgs. \<exists>e\<in>?E. resolve os (fs w) ctx e = Inr p" by blast
  then have "?E = {} \<longrightarrow> pkgs = []" by (cases pkgs) auto
  moreover from from_edge have "root \<in> set pkgs \<longrightarrow>
            (\<exists>e\<in>?E. resolve os (fs w) ctx e = Inr root \<and>
               ((\<forall>e p. resolve os (fs w) ctx e = Inr p \<longrightarrow> ImportPath p = path e) \<longrightarrow>
                path e = ImportPath root))" by metis
  ultimately show ?thesis using from_edge by blast
qed

text \<open>In \<open>selfref_app\<close> the package \<open>a\<close> imports the root, and the root is in the list.\<close>

theorem analyze_output_excludes_root_witness:
  "\<exists>e\<in>resolved_edges (fixture_os selfref_app [] []) () (level6 [''appengine''])
         skippedPackages_init (edges_from ''/gopath/src/app'' [''a'']).
     resolve (fixture_os selfref_app [] []) () (level6 [''appengine'']) e =
       Inr (gopath_pkg ''main'' ''app'' [''a''])"
proof -
  have 1: "filepath_Abs (fixture_os selfref_app [] []) (fs (initial_world ())) ''/gopath/src/app''
    = Inr ''/gopath/src/app''" by simp
  have 2: "build_ImportDir (fixture_os selfref_app [] []) (fs (initial_world ()))
    (level6 [''appengine'']) ''/gopath/src/app'' = Inr (gopath_pkg ''main'' ''app'' [''a''])"
    by (simp add: selfref_app_def fx_find_def gopath_pkg_def)
  from analyze_output_excludes_root[OF 1 2 selfref_run] show ?thesis
    by (simp add: gopath_pkg_def)
qed

section \<open>Properties of the bundler and of the command\<close>




text \<open>
  Claim C2, as amended.  The bundler always returns, and it calls the tree copier in its
  non-recursive mode.  When it succeeds, what it has done is, for each package of the list
  in order, a non-recursive copy of the directory \<^verbatim>\<open>filepath.Join(pkg.SrcRoot,
  pkg.ImportPath)\<close> into \<^verbatim>\<open>filepath.Join(dst, filepath.Join(vendorDir, pkg.ImportPath))\<close>:
  it creates that destination directory and then, for every entry of the listing of the
  source directory, skips it with a message (a name in \<^verbatim>\<open>skipFiles\<close>), passes over it
  (a directory) or creates and copies the file of that name.  So the directories created
  are exactly the destination directories of the packages, one for each package and none
  for a subdirectory, and every file created is a file directly in a package directory.
\<close>

theorem bundle_copies_top_level_only:
  "\<exists>r w'. bundle_deps os src dst vendorDir deps w = Some (r, w') \<and>
     (r = None \<longrightarrow>
        mkdirs (new_events w w') =
          map (\<lambda>p. filepath_Join os dst (filepath_Join os vendorDir (ImportPath p))) deps \<and>
        (\<exists>ess.
           list_all2
             (\<lambda>p es. flat_copy os (skipFiles w) dst (filepath_Join os vendorDir (ImportPath p))
                        (filepath_Join os (SrcRoot p) (ImportPath p)) es)
             deps ess \<and>
           new_events w w' = concat ess))"
proof -
  from bundle_deps_flat[of os src dst vendorDir deps w] obtain r w' es where
    run: "bundle_deps os src dst vendorDir deps w = Some (r, w')" and
    ev: "events w' = events w @ es" and
    mk: "r = None \<longrightarrow> mkdirs es =
       map (\<lambda>p. filepath_Join os dst (filepath_Join os vendorDir (ImportPath p))) deps"
    by blast
  have "\<exists>ess.
           list_all2
             (\<lambda>p es. flat_copy os (skipFiles w) dst (filepath_Join os vendorDir (ImportPath p))
                        (filepath_Join os (SrcRoot p) (ImportPath p)) es)
             deps ess \<and>
           new_events w w' = concat ess" if "r = None"
  proof -
    from run that have "bundle_deps os src dst vendorDir deps w = Some (None, w')" by simp
    from bundle_deps_trace[OF this] show ?thesis by auto
  qed
  with run ev mk show ?thesis by (intro exI[of _ r] exI[of _ w']) simp
qed

theorem bundle_copies_top_level_only_witness:
  "mkdirs (new_events (initial_world ())
     (initial_world ()\<lparr>events := bundle_trace ''/out/_gopath/src/a''\<rparr>)) =
     [''/out/_gopath/src/a''] \<and>
   flat_copy flexible_os skipFiles_init ''/out'' ''_gopath/src/a'' ''/gopath/src/a''
     (bundle_trace ''/out/_gopath/src/a'')"
proof -
  let ?p = "gopath_pkg ''a'' ''a'' []"
  from bundle_copies_top_level_only[of flexible_os "''/gopath/src/app''" "''/out''"
      "''_gopath/src''" "[?p]" "initial_world ()"]
  obtain r w' where
    run: "bundle_deps flexible_os ''/gopath/src/app'' ''/out'' ''_gopath/src''
       [?p] (initial_world ()) = Some (r, w')" and
    concl: "r = None \<longrightarrow>
       mkdirs (new_events (initial_world ()) w') =
         map (\<lambda>p. filepath_Join flexible_os ''/out''
                    (filepath_Join flexible_os ''_gopath/src'' (ImportPath p))) [?p] \<and>
       (\<exists>ess.
           list_all2
             (\<lambda>p es. flat_copy flexible_os (skipFiles (initial_world ())) ''/out''
                        (filepath_Join flexible_os ''_gopath/src'' (ImportPath p))
                        (filepath_Join flexible_os (SrcRoot p) (ImportPath p)) es)
             [?p] ess \<and>
           new_events (initial_world ()) w' = concat ess)"
    by blast
  from run bundle_run have r: "r = None"
    and w': "w' = initial_world ()\<lparr>events := bundle_trace ''/out/_gopath/src/a''\<rparr>"
    by simp_all
  have j1: "filepath_Join flexible_os ''_gopath/src'' (ImportPath ?p) = ''_gopath/src/a''"
    and j2: "filepath_Join flexible_os (SrcRoot ?p) (ImportPath ?p) = ''/gopath/src/a''"
    and j3: "filepath_Join flexible_os ''/out'' ''_gopath/src/a'' = ''/out/_gopath/src/a''"
    by (simp_all add: flexible_os_def fx_Join_def gopath_pkg_def)
  from concl r have m: "mkdirs (new_events (initial_world ()) w') = [''/out/_gopath/src/a'']"
    by (simp add: j1 j3)
  from concl r obtain ess where
    l: "list_all2 (\<lambda>p es. flat_copy flexible_os skipFiles_init ''/out''
                        (filepath_Join flexible_os ''_gopath/src'' (ImportPath p))
                        (filepath_Join flexible_os (SrcRoot p) (ImportPath p)) es) [?p] ess"
    and c: "new_events (initial_world ()) w' = concat ess"
    by auto
  from l obtain es where ess: "ess = [es]" and
    f: "flat_copy flexible_os skipFiles_init ''/out'' ''_gopath/src/a'' ''/gopath/src/a'' es"
    by (auto simp: list_all2_Cons1 j1 j2)
  from c ess w' have "es = bundle_trace ''/out/_gopath/src/a''"
    by (simp add: new_events_def del: new_events_append)
  with f m w' show ?thesis by blast
qed

text \<open>
  The claim C2 as stated has the bundler copy recursively.  For the package \<open>a\<close> the
  bundler creates \<^verbatim>\<open>a.go\<close> only; a recursive call of the tree copier with the same
  arguments also creates \<^verbatim>\<open>sub/s.go\<close>.
\<close>

theorem bundle_recursive_counterexample:
  "bundle_deps flexible_os ''/gopath/src/app'' ''/out'' ''_gopath/src''
     [gopath_pkg ''a'' ''a'' []] (initial_world ()) =
     Some (None, initial_world ()\<lparr>events := bundle_trace ''/out/_gopath/src/a''\<rparr>) \<and>
   created (bundle_trace ''/out/_gopath/src/a'') = [''/out/_gopath/src/a/a.go''] \<and>
   copyTree flexible_os ''/out'' ''_gopath/src/a'' ''/gopath/src/a'' True (initial_world ()) =
     Some (None, initial_world ()\<lparr>events :=
       bundle_trace ''/out/_gopath/src/a'' @ subdir_trace ''/out/_gopath/src/a''\<rparr>) \<and>
   created (bundle_trace ''/out/_gopath/src/a'' @ subdir_trace ''/out/_gopath/src/a'') =
     [''/out/_gopath/src/a/a.go'', ''/out/_gopath/src/a/sub/s.go'']"
  by (simp add: bundle_run recursive_copy_run) (simp add: bundle_trace_def subdir_trace_def)

text \<open>
  Claim C3.  The source never writes to the standard output: whatever the arguments and the
  environment, a run that ends has added no line of standard output to the trace.  It ends
  with exit code 0 or 1, and with code 1 the last thing it did was to write a diagnostic
  to the standard error.  The claim (and the comment at the head of the source) promise the
  path of the staged manifest on the standard output of a successful run.
\<close>

theorem main_writes_nothing_to_stdout:
  assumes "main os args w = Some (code, w')"
  shows "stdout_lines (new_events w w') = [] \<and> (code = 0 \<or> code = 1) \<and>
         (code = 1 \<longrightarrow> (\<exists>d w0. w' = emit (EvStderr d) w0))"
  using assms
proof (cases rule: main_cases)
  case usage
  then show ?thesis by (simp add: new_events_def) blast
next
  case (read err)
  then show ?thesis by (simp add: new_events_def) blast
next
  case (parse contents err)
  then show ?thesis by (simp add: new_events_def) blast
next
  case (staged contents c tags enforceMain vendorDir ws)
  from main_staging[OF staged assms] have a: "adds run_event ws w'"
    and rest: "code = 0 \<or> code = 1" "code = 1 \<longrightarrow> (\<exists>d w0. w' = emit (EvStderr d) w0)"
    by blast+
  from a staging_mode_world[OF staged(4)] obtain es where
    es: "events w' = events w @ es" "list_all run_event es"
    by (auto simp: adds_def)
  from es(2) have "list_all (\<lambda>e. \<not> is_stdout e) es"
    by (auto simp: list_all_iff dest: run_event_not_stdout)
  then have "stdout_lines es = []" by (rule stdout_lines_none)
  with es(1) rest show ?thesis by simp
qed

text \<open>The successful run in the standard environment: exit code 0, nothing on standard output.\<close>

theorem main_writes_nothing_to_stdout_witness:
  "main standard_os [''/gopath/src/app/app.yaml'', ''/out''] (initial_world ()) =
     Some (0, standard_final) \<and>
   stdout_lines (new_events (initial_world ()) standard_final) = []"
  using main_writes_nothing_to_stdout[OF standard_run] standard_run by simp




end
